theory Spec2Isabelle
  imports Main "HOL-Library.Word"
begin

unbundle bit_operations_syntax

section \<open>JavaScript numbers, bitwise operators and strings\<close>

text \<open>
  The integers of \<^verbatim>\<open>stun.js\<close> are JavaScript numbers with integral values, modelled
  as \<open>int\<close>. The bitwise operators convert their operands to 32 bits: \<^verbatim>\<open>^\<close> and
  \<^verbatim>\<open>&\<close> give a signed 32-bit result, \<^verbatim>\<open>>>>\<close> an unsigned one and takes its shift
  count modulo 32.
\<close>

definition js_xor :: "int \<Rightarrow> int \<Rightarrow> int" where
  "js_xor a b = sint ((word_of_int a :: 32 word) XOR word_of_int b)"

definition js_and :: "int \<Rightarrow> int \<Rightarrow> int" where
  "js_and a b = sint ((word_of_int a :: 32 word) AND word_of_int b)"

definition js_ushr :: "int \<Rightarrow> int \<Rightarrow> int" where
  "js_ushr a n = uint (drop_bit (nat (n mod 32)) (word_of_int a :: 32 word))"

text \<open>\<^verbatim>\<open>String(n)\<close> for an integral number: decimal digits, a minus sign when negative.\<close>

definition digit_char :: "nat \<Rightarrow> char" where
  "digit_char d = ''0123456789'' ! d"

function nat_str :: "nat \<Rightarrow> string" where
  "nat_str n = (if n < 10 then [digit_char n] else nat_str (n div 10) @ [digit_char (n mod 10)])"
  by pat_completeness auto
termination
  by (relation "measure id") auto

declare nat_str.simps [simp del]

definition number_str :: "int \<Rightarrow> string" where
  "number_str i = (if i < 0 then CHR ''-'' # nat_str (nat (- i)) else nat_str (nat i))"

text \<open>\<^verbatim>\<open>ipBytes.join('.')\<close>\<close>

fun join_dot :: "int list \<Rightarrow> string" where
  "join_dot [] = []"
| "join_dot [x] = number_str x"
| "join_dot (x # y # ys) = number_str x @ ''.'' @ join_dot (y # ys)"

section \<open>stun.js: the Binding Response decoder\<close>

type_synonym byte = "8 word"
type_synonym buffer = "byte list"

definition MAGIC_COOKIE :: int where
  "MAGIC_COOKIE = 0x2112A442"

definition BINDING_RESPONSE_TYPE :: nat where
  "BINDING_RESPONSE_TYPE = 0x0101"

definition XOR_MAPPED_ADDRESS_TYPE :: nat where
  "XOR_MAPPED_ADDRESS_TYPE = 0x0020"

text \<open>
  What a rejected discovery carries: the \<^verbatim>\<open>RangeError\<close> of a \<^verbatim>\<open>Buffer\<close> read that
  does not fit in the buffer, the two errors thrown by the decoder (\<open>Invalid STUN
  response\<close>, \<open>No XOR-MAPPED-ADDRESS found in STUN response\<close>), and the errors of the
  socket, of the send callback and of the timer.
\<close>

datatype stun_error =
    RangeError
  | InvalidStunResponse
  | NoXorMappedAddress
  | SocketError string
  | SendFailed
  | TimedOut

record resolved_address =
  ip :: string
  port :: int

text \<open>\<^verbatim>\<open>Buffer.readUInt8\<close> and \<^verbatim>\<open>Buffer.readUInt16BE\<close> throw when the bytes read are
  not all inside the buffer.\<close>

definition readUInt8 :: "buffer \<Rightarrow> nat \<Rightarrow> stun_error + nat" where
  "readUInt8 msg off = (if off < length msg then Inr (unat (msg ! off)) else Inl RangeError)"

definition readUInt16BE :: "buffer \<Rightarrow> nat \<Rightarrow> stun_error + nat" where
  "readUInt16BE msg off =
     (if off + 2 \<le> length msg then Inr (unat (msg ! off) * 256 + unat (msg ! (off + 1)))
      else Inl RangeError)"

text \<open>The \<^verbatim>\<open>for (let i = 0; i < 4; i++)\<close> loop that decodes the address bytes.\<close>

function ipBytes_loop :: "buffer \<Rightarrow> nat \<Rightarrow> nat \<Rightarrow> int list \<Rightarrow> stun_error + int list" where
  "ipBytes_loop msg offset i ipBytes =
     (if i < 4 then
        (let magicByte = js_and (js_ushr MAGIC_COOKIE (24 - int i * 8)) 0xFF in
         case readUInt8 msg (offset + 8 + i) of
           Inl e \<Rightarrow> Inl e
         | Inr encodedByte \<Rightarrow>
             ipBytes_loop msg offset (i + 1) (ipBytes @ [js_xor (int encodedByte) magicByte]))
      else Inr ipBytes)"
  by pat_completeness auto
termination
  by (relation "measure (\<lambda>(msg, offset, i, ipBytes). 4 - i)") auto

declare ipBytes_loop.simps [simp del]

text \<open>The body of \<^verbatim>\<open>if (attrType === XOR_MAPPED_ADDRESS_TYPE)\<close>.\<close>

definition decode_attribute :: "buffer \<Rightarrow> nat \<Rightarrow> stun_error + resolved_address" where
  "decode_attribute msg offset =
     (case readUInt8 msg (offset + 5) of
        Inl e \<Rightarrow> Inl e
      | Inr family \<Rightarrow>
          (case readUInt16BE msg (offset + 6) of
             Inl e \<Rightarrow> Inl e
           | Inr xPort \<Rightarrow>
               (let p = js_xor (int xPort) (js_ushr MAGIC_COOKIE 16) in
                case ipBytes_loop msg offset 0 [] of
                  Inl e \<Rightarrow> Inl e
                | Inr ipBytes \<Rightarrow> Inr \<lparr>ip = join_dot ipBytes, port = p\<rparr>)))"

text \<open>\<^verbatim>\<open>offset += 4 + attrLength + (attrLength % 4 ? 4 - attrLength % 4 : 0)\<close>\<close>

definition next_offset :: "nat \<Rightarrow> nat \<Rightarrow> nat" where
  "next_offset offset attrLength =
     offset + 4 + attrLength + (if attrLength mod 4 \<noteq> 0 then 4 - attrLength mod 4 else 0)"

text \<open>The \<^verbatim>\<open>while (offset < msg.length)\<close> loop of \<^verbatim>\<open>decodeXorAddress\<close>, from any offset.\<close>

function walk :: "buffer \<Rightarrow> nat \<Rightarrow> stun_error + resolved_address" where
  "walk msg offset =
     (if offset < length msg then
        (case readUInt16BE msg offset of
           Inl e \<Rightarrow> Inl e
         | Inr attrType \<Rightarrow>
             (case readUInt16BE msg (offset + 2) of
                Inl e \<Rightarrow> Inl e
              | Inr attrLength \<Rightarrow>
                  if attrType = XOR_MAPPED_ADDRESS_TYPE then decode_attribute msg offset
                  else walk msg (next_offset offset attrLength)))
      else Inl NoXorMappedAddress)"
  by pat_completeness auto
termination
  by (relation "measure (\<lambda>(msg, offset). length msg - offset)") (auto simp: next_offset_def)

declare walk.simps [simp del]

definition decodeXorAddress :: "buffer \<Rightarrow> stun_error + resolved_address" where
  "decodeXorAddress msg = walk msg 20"

text \<open>
  The \<^verbatim>\<open>try\<close> block of the socket's \<^verbatim>\<open>message\<close> listener: the check of the message
  type, then \<^verbatim>\<open>decodeXorAddress\<close>. \<open>Inl\<close> is what the \<^verbatim>\<open>catch\<close> clause receives.
\<close>

definition decodeResponse :: "buffer \<Rightarrow> stun_error + resolved_address" where
  "decodeResponse responseMsg =
     (case readUInt16BE responseMsg 0 of
        Inl e \<Rightarrow> Inl e
      | Inr t \<Rightarrow>
          if t \<noteq> BINDING_RESPONSE_TYPE then Inl InvalidStunResponse
          else decodeXorAddress responseMsg)"

subsection \<open>The response format, as the specification words it\<close>

text \<open>
  No function of the repository builds a Binding Response: the STUN server does. The
  definitions below follow the specification's description of the message (a 20-byte
  header, then type-length-value attributes padded to a multiple of four bytes) and of the
  XOR-MAPPED-ADDRESS attribute (port masked with the high 16 bits of the magic constant,
  address octets with its four bytes, most significant first). They are the inputs of the
  round-trip properties of the decoder.
\<close>

definition u16be :: "nat \<Rightarrow> buffer" where
  "u16be n = [of_nat (n div 256), of_nat (n mod 256)]"

definition pad_len :: "nat \<Rightarrow> nat" where
  "pad_len n = (4 - n mod 4) mod 4"

definition tlv :: "nat \<Rightarrow> buffer \<Rightarrow> buffer" where
  "tlv t v = u16be t @ u16be (length v) @ v @ replicate (pad_len (length v)) 0"

definition xor_mapped_address :: "nat \<Rightarrow> nat \<Rightarrow> nat \<Rightarrow> nat \<Rightarrow> nat \<Rightarrow> buffer" where
  "xor_mapped_address a b c d p =
     tlv 0x0020
       ([0, 1] @ u16be (p XOR 0x2112) @
        [of_nat (a XOR 0x21), of_nat (b XOR 0x12), of_nat (c XOR 0xA4), of_nat (d XOR 0x42)])"

definition binding_response :: "buffer \<Rightarrow> buffer \<Rightarrow> buffer" where
  "binding_response txid body =
     u16be 0x0101 @ u16be (length body) @ [0x21, 0x12, 0xA4, 0x42] @ txid @ body"

definition dotted_quad :: "nat \<Rightarrow> nat \<Rightarrow> nat \<Rightarrow> nat \<Rightarrow> string" where
  "dotted_quad a b c d = nat_str a @ ''.'' @ nat_str b @ ''.'' @ nat_str c @ ''.'' @ nat_str d"

text \<open>An attribute that is not the one looked for: its type, its value.\<close>

definition unrelated :: "nat \<times> buffer \<Rightarrow> bool" where
  "unrelated tv = (fst tv < 65536 \<and> fst tv \<noteq> 0x0020 \<and> length (snd tv) < 65536)"

definition attributes :: "(nat \<times> buffer) list \<Rightarrow> buffer" where
  "attributes tvs = concat (map (\<lambda>tv. tlv (fst tv) (snd tv)) tvs)"

text \<open>
  The attribute walk, as the specification words it: from an offset whose four header
  bytes are inside the buffer and whose type is not the target, the next attribute is at
  4 + length + padding. \<open>walks_to msg a b\<close>: the walk that starts at \<open>a\<close> comes to \<open>b\<close>.
\<close>

definition u16_at :: "buffer \<Rightarrow> nat \<Rightarrow> nat" where
  "u16_at msg off = unat (msg ! off) * 256 + unat (msg ! (off + 1))"

inductive walks_to :: "buffer \<Rightarrow> nat \<Rightarrow> nat \<Rightarrow> bool" for msg :: buffer where
  here: "walks_to msg a a"
| skip: "a + 4 \<le> length msg \<Longrightarrow> u16_at msg a \<noteq> 0x0020 \<Longrightarrow>
         walks_to msg (a + 4 + u16_at msg (a + 2) + pad_len (u16_at msg (a + 2))) b \<Longrightarrow>
         walks_to msg a b"

code_pred (modes: i \<Rightarrow> i \<Rightarrow> i \<Rightarrow> bool) walks_to .

text \<open>The byte at index \<open>i\<close> of the address, unmasked as the loop body does.\<close>

definition unmasked :: "buffer \<Rightarrow> nat \<Rightarrow> nat \<Rightarrow> int" where
  "unmasked msg offset i =
     js_xor (int (unat (msg ! (offset + 8 + i))))
       (js_and (js_ushr MAGIC_COOKIE (24 - int i * 8)) 0xFF)"

section \<open>stun.js: one discovery transaction\<close>

text \<open>
  \<^verbatim>\<open>getPublicAddress\<close> creates one socket and one promise and registers four callbacks:
  the socket's \<^verbatim>\<open>error\<close> listener, the callback of \<^verbatim>\<open>socket.send\<close>, the socket's
  \<^verbatim>\<open>message\<close> listener and the timer. The state they share is the flag \<^verbatim>\<open>isClosed\<close>,
  the socket (of which the number of calls of \<^verbatim>\<open>socket.close()\<close> is recorded) and the
  promise, which \<^verbatim>\<open>resolve\<close> and \<^verbatim>\<open>reject\<close> settle only while it is pending.
\<close>

datatype promise = Pending | Resolved resolved_address | Rejected stun_error

record transaction =
  isClosed :: bool
  socket_closes :: nat
  settled :: promise

definition closeSocket :: "transaction \<Rightarrow> transaction" where
  "closeSocket t =
     (if \<not> isClosed t then t\<lparr>isClosed := True, socket_closes := socket_closes t + 1\<rparr> else t)"

definition resolve :: "resolved_address \<Rightarrow> transaction \<Rightarrow> transaction" where
  "resolve v t = (if settled t = Pending then t\<lparr>settled := Resolved v\<rparr> else t)"

definition reject :: "stun_error \<Rightarrow> transaction \<Rightarrow> transaction" where
  "reject e t = (if settled t = Pending then t\<lparr>settled := Rejected e\<rparr> else t)"

text \<open>The callbacks. The send callback is called with an error or without one.\<close>

datatype socket_event =
    OnError string
  | OnSent bool
  | OnMessage buffer
  | OnTimeout

fun handle :: "transaction \<Rightarrow> socket_event \<Rightarrow> transaction" where
  "handle t (OnError m) = closeSocket (reject (SocketError m) t)"
| "handle t (OnSent err) = (if err then closeSocket (reject SendFailed t) else t)"
| "handle t (OnMessage responseMsg) =
     (case decodeResponse responseMsg of
        Inr result \<Rightarrow> resolve result (closeSocket t)
      | Inl error \<Rightarrow> reject error (closeSocket t))"
| "handle t OnTimeout = reject TimedOut (closeSocket t)"

definition getPublicAddress :: transaction where
  "getPublicAddress = \<lparr>isClosed = False, socket_closes = 0, settled = Pending\<rparr>"

fun handle_all :: "transaction \<Rightarrow> socket_event list \<Rightarrow> transaction" where
  "handle_all t [] = t"
| "handle_all t (e # es) = handle_all (handle t e) es"

text \<open>The events that end the transaction: all but a send callback without error.\<close>

fun terminal :: "socket_event \<Rightarrow> bool" where
  "terminal (OnSent err) = err"
| "terminal _ = True"

section \<open>server.js: the room registry and the relay\<close>

text \<open>
  A connection (\<^verbatim>\<open>ws\<close>) is a number. The registry is the object \<^verbatim>\<open>rooms\<close>, from room
  identifier to the list of the room's connections, and the property \<^verbatim>\<open>roomId\<close> that
  the handlers set on a connection (\<open>None\<close>: \<^verbatim>\<open>undefined\<close>).
\<close>

type_synonym conn = nat

record relay =
  rooms :: "string \<rightharpoonup> conn list"
  ws_roomId :: "conn \<Rightarrow> string option"

text \<open>
  An inbound message is the parsed JSON object: its \<^verbatim>\<open>type\<close>, its \<^verbatim>\<open>roomId\<close> and
  \<^verbatim>\<open>username\<close> when it has them (as strings), and the rest of it, which the relay does
  not read.
\<close>

record inbound =
  msg_type :: string
  msg_roomId :: "string option"
  msg_username :: "string option"
  msg_rest :: string

datatype outbound =
    RoomCreated string
  | UserJoined "string option"
  | StartWebrtc
  | ErrorMessage string
  | Forwarded inbound

text \<open>
  How a handler ends: it returns, it throws a \<^verbatim>\<open>TypeError\<close>, or it does not return
  (the loop of \<^verbatim>\<open>createRoomId\<close> with the random numbers it was given used up).
\<close>

datatype completion = Returns | Throws_TypeError | No_return

record outcome =
  state_after :: relay
  sent :: "(conn \<times> outbound) list"
  completion :: completion

definition returns :: "relay \<Rightarrow> outcome" where
  "returns s = \<lparr>state_after = s, sent = [], completion = Returns\<rparr>"

definition throws :: "relay \<Rightarrow> outcome" where
  "throws s = \<lparr>state_after = s, sent = [], completion = Throws_TypeError\<rparr>"

text \<open>
  \<^verbatim>\<open>createRoomId\<close>. Its argument is the list of the strings that the successive calls of
  \<^verbatim>\<open>Math.random().toString(36)\<close> return; \<open>None\<close> when the list ends before the code
  has 25 characters.
\<close>

fun createRoomId_loop :: "string \<Rightarrow> string list \<Rightarrow> string option" where
  "createRoomId_loop code [] = (if length code < 25 then None else Some (take 25 code))"
| "createRoomId_loop code (r # rs) =
     (if length code < 25 then createRoomId_loop (code @ drop 2 r) rs else Some (take 25 code))"

definition createRoomId :: "string list \<Rightarrow> string option" where
  "createRoomId rnd =
     (case rnd of [] \<Rightarrow> None | r # rs \<Rightarrow> createRoomId_loop (take 25 (drop 2 r)) rs)"

text \<open>
  \<^verbatim>\<open>rooms[roomId]\<close>. \<^verbatim>\<open>rooms\<close> is an object literal, so a key that is not a room is
  looked up in \<^verbatim>\<open>Object.prototype\<close>: for the names below the value is a function (for
  \<^verbatim>\<open>__proto__\<close>, the prototype object), which is truthy and has neither \<^verbatim>\<open>push\<close>,
  \<^verbatim>\<open>forEach\<close> nor \<^verbatim>\<open>filter\<close>. A missing \<^verbatim>\<open>roomId\<close> is the key \<^verbatim>\<open>"undefined"\<close>.
\<close>

definition object_prototype_keys :: "string list" where
  "object_prototype_keys =
     [''constructor'', ''__defineGetter__'', ''__defineSetter__'', ''hasOwnProperty'',
      ''__lookupGetter__'', ''__lookupSetter__'', ''isPrototypeOf'', ''propertyIsEnumerable'',
      ''toString'', ''valueOf'', ''__proto__'', ''toLocaleString'']"

datatype property = Absent | Room "conn list" | Inherited

definition property_key :: "string option \<Rightarrow> string" where
  "property_key roomId = (case roomId of None \<Rightarrow> ''undefined'' | Some k \<Rightarrow> k)"

definition rooms_get :: "relay \<Rightarrow> string option \<Rightarrow> property" where
  "rooms_get s roomId =
     (case rooms s (property_key roomId) of
        Some l \<Rightarrow> Room l
      | None \<Rightarrow> if property_key roomId \<in> set object_prototype_keys then Inherited else Absent)"

text \<open>The body of \<^verbatim>\<open>if (data.type === "create-room")\<close>.\<close>

definition create_room :: "string list \<Rightarrow> relay \<Rightarrow> conn \<Rightarrow> outcome" where
  "create_room rnd s ws =
     (case createRoomId rnd of
        None \<Rightarrow> \<lparr>state_after = s, sent = [], completion = No_return\<rparr>
      | Some roomId \<Rightarrow>
          \<lparr>state_after = s\<lparr>rooms := (rooms s)(roomId \<mapsto> [ws]),
                             ws_roomId := (ws_roomId s)(ws := Some roomId)\<rparr>,
           sent = [(ws, RoomCreated roomId)],
           completion = Returns\<rparr>)"

text \<open>
  The body of \<^verbatim>\<open>if (data.type === "join-room")\<close>. \<open>is_open client\<close> is
  \<^verbatim>\<open>client.readyState === WebSocket.OPEN\<close>.
\<close>

definition join_room :: "(conn \<Rightarrow> bool) \<Rightarrow> relay \<Rightarrow> conn \<Rightarrow> inbound \<Rightarrow> outcome" where
  "join_room is_open s ws data =
     (case rooms_get s (msg_roomId data) of
        Room l \<Rightarrow>
          (let room = l @ [ws] in
           \<lparr>state_after = s\<lparr>rooms := (rooms s)(property_key (msg_roomId data) \<mapsto> room),
                              ws_roomId := (ws_roomId s)(ws := msg_roomId data)\<rparr>,
            sent = map (\<lambda>client. (client, UserJoined (msg_username data))) (filter is_open room) @
                   (if length room \<ge> 2 then [(room ! 0, StartWebrtc)] else []),
            completion = Returns\<rparr>)
      | Inherited \<Rightarrow> throws s
      | Absent \<Rightarrow>
          \<lparr>state_after = s, sent = [(ws, ErrorMessage ''Room not found'')], completion = Returns\<rparr>)"

text \<open>The body of the third \<^verbatim>\<open>if\<close>, for the three kinds of negotiation message.\<close>

definition forward :: "(conn \<Rightarrow> bool) \<Rightarrow> relay \<Rightarrow> conn \<Rightarrow> inbound \<Rightarrow> outcome" where
  "forward is_open s ws data =
     (case rooms_get s (msg_roomId data) of
        Room roomUsers \<Rightarrow>
          \<lparr>state_after = s,
           sent = map (\<lambda>client. (client, Forwarded data))
                    (filter (\<lambda>client. client \<noteq> ws \<and> is_open client) roomUsers),
           completion = Returns\<rparr>
      | Inherited \<Rightarrow> throws s
      | Absent \<Rightarrow> returns s)"

text \<open>
  The \<^verbatim>\<open>message\<close> listener: three \<^verbatim>\<open>if\<close> statements one after the other. A statement
  runs when the one before it has returned, from the state it left, and adds to what was
  sent.
\<close>

definition and_then :: "outcome \<Rightarrow> (relay \<Rightarrow> outcome) \<Rightarrow> outcome" where
  "and_then out f =
     (if completion out = Returns
      then (let out' = f (state_after out) in out'\<lparr>sent := sent out @ sent out'\<rparr>)
      else out)"

definition on_message :: "(conn \<Rightarrow> bool) \<Rightarrow> string list \<Rightarrow> relay \<Rightarrow> conn \<Rightarrow> inbound \<Rightarrow> outcome" where
  "on_message is_open rnd s ws data =
     and_then
       (and_then
          (if msg_type data = ''create-room'' then create_room rnd s ws else returns s)
          (\<lambda>s. if msg_type data = ''join-room'' then join_room is_open s ws data else returns s))
       (\<lambda>s. if msg_type data = ''webrtc-offer'' \<or> msg_type data = ''webrtc-answer'' \<or>
                 msg_type data = ''webrtc-ice''
             then forward is_open s ws data else returns s)"

text \<open>The \<^verbatim>\<open>close\<close> listener. The empty string is falsy.\<close>

definition on_close :: "relay \<Rightarrow> conn \<Rightarrow> outcome" where
  "on_close s ws =
     (case ws_roomId s ws of
        None \<Rightarrow> returns s
      | Some roomId \<Rightarrow>
          if roomId = [] then returns s
          else
            (case rooms_get s (Some roomId) of
               Absent \<Rightarrow> returns s
             | Inherited \<Rightarrow> throws s
             | Room l \<Rightarrow>
                 (let l' = filter (\<lambda>client. client \<noteq> ws) l in
                  if length l' = 0 then returns (s\<lparr>rooms := (rooms s)(roomId := None)\<rparr>)
                  else returns (s\<lparr>rooms := (rooms s)(roomId \<mapsto> l')\<rparr>))))"

text \<open>
  The server: it starts with no room and handles one event after the other. A handler
  that throws is not caught by anything in \<^verbatim>\<open>server.js\<close>, and one that does not return
  keeps the only thread: in both cases no later event is handled.
\<close>

datatype event = Message conn "string list" inbound | Close conn

definition no_rooms :: relay where
  "no_rooms = \<lparr>rooms = Map.empty, ws_roomId = (\<lambda>ws. None)\<rparr>"

fun step :: "(conn \<Rightarrow> bool) \<Rightarrow> relay \<Rightarrow> event \<Rightarrow> outcome" where
  "step is_open s (Message ws rnd data) = on_message is_open rnd s ws data"
| "step is_open s (Close ws) = on_close s ws"

fun run :: "(conn \<Rightarrow> bool) \<Rightarrow> relay \<Rightarrow> event list \<Rightarrow> relay" where
  "run is_open s [] = s"
| "run is_open s (e # es) =
     (if completion (step is_open s e) = Returns then run is_open (state_after (step is_open s e)) es
      else state_after (step is_open s e))"

text \<open>
  A sequence of events in which a connection asks to create or to join a room only while
  its \<^verbatim>\<open>roomId\<close> is not set, that is, not after it has created or joined one.
\<close>

fun first_room_only :: "relay \<Rightarrow> event \<Rightarrow> bool" where
  "first_room_only s (Message ws rnd data) =
     (if msg_type data = ''create-room'' \<or> msg_type data = ''join-room''
      then ws_roomId s ws = None else True)"
| "first_room_only s (Close ws) = True"

fun one_room_each :: "(conn \<Rightarrow> bool) \<Rightarrow> relay \<Rightarrow> event list \<Rightarrow> bool" where
  "one_room_each is_open s [] = True"
| "one_room_each is_open s (e # es) =
     (first_room_only s e \<and>
      (if completion (step is_open s e) = Returns
       then one_room_each is_open (state_after (step is_open s e)) es else True))"

text \<open>The \<^verbatim>\<open>start-webrtc\<close> messages among those sent.\<close>

definition starts :: "(conn \<times> outbound) list \<Rightarrow> (conn \<times> outbound) list" where
  "starts out = filter (\<lambda>cm. snd cm = StartWebrtc) out"

text \<open>
  The three properties of the registry: no room is empty, no room lists a connection
  twice, no connection is in two rooms.
\<close>

definition rooms_nonempty :: "relay \<Rightarrow> bool" where
  "rooms_nonempty s = (\<forall>roomId l. rooms s roomId = Some l \<longrightarrow> l \<noteq> [])"

definition rooms_distinct :: "relay \<Rightarrow> bool" where
  "rooms_distinct s = (\<forall>roomId l. rooms s roomId = Some l \<longrightarrow> distinct l)"

definition in_one_room :: "relay \<Rightarrow> bool" where
  "in_one_room s =
     (\<forall>ws r r' l l'. rooms s r = Some l \<longrightarrow> rooms s r' = Some l' \<longrightarrow>
        ws \<in> set l \<longrightarrow> ws \<in> set l' \<longrightarrow> r = r')"

text \<open>Every connection of a room has that room's identifier as its \<^verbatim>\<open>roomId\<close>.\<close>

definition back_refs :: "relay \<Rightarrow> bool" where
  "back_refs s =
     (\<forall>roomId l ws. rooms s roomId = Some l \<longrightarrow> ws \<in> set l \<longrightarrow> ws_roomId s ws = Some roomId)"

text \<open>Every room identifier of the registry has the 25 characters of \<^verbatim>\<open>createRoomId\<close>.\<close>

definition room_ids_wf :: "relay \<Rightarrow> bool" where
  "room_ids_wf s = (\<forall>roomId. rooms s roomId \<noteq> None \<longrightarrow> length roomId = 25)"

text \<open>
  Example data: draws of \<^verbatim>\<open>Math.random().toString(36)\<close>, the room identifiers that
  \<^verbatim>\<open>createRoomId\<close> makes of them, and messages.
\<close>

definition draws_a :: "string list" where
  "draws_a = [''0.abcdefghijk'', ''0.lmnopqrstuv'', ''0.wxyz0123456'']"

definition draws_b :: "string list" where
  "draws_b = [''0.9z8y7x6w5v4'', ''0.u3t2s1r0qpo'', ''0.nmlkjihgfed'']"

definition room_a :: string where
  "room_a = ''abcdefghijklmnopqrstuvwxy''"

definition room_b :: string where
  "room_b = ''9z8y7x6w5v4u3t2s1r0qponml''"

definition everyone_open :: "conn \<Rightarrow> bool" where
  "everyone_open ws = True"

definition msg_create :: inbound where
  "msg_create = \<lparr>msg_type = ''create-room'', msg_roomId = None, msg_username = None, msg_rest = []\<rparr>"

definition msg_ice :: "string option \<Rightarrow> inbound" where
  "msg_ice roomId =
     \<lparr>msg_type = ''webrtc-ice'', msg_roomId = roomId, msg_username = None,
      msg_rest = ''candidate''\<rparr>"

definition msg_join :: "string \<Rightarrow> string \<Rightarrow> inbound" where
  "msg_join roomId name =
     \<lparr>msg_type = ''join-room'', msg_roomId = Some roomId, msg_username = Some name, msg_rest = []\<rparr>"

section \<open>The decoder\<close>

subsection \<open>The bitwise operators on small non-negative numbers\<close>

lemma js_xor_small:
  assumes "0 \<le> a" "a < 2 ^ 31" "0 \<le> b" "b < 2 ^ 31"
  shows "js_xor a b = a XOR b"
proof -
  have lo: "0 \<le> a XOR b" using assms by simp
  have hi: "a XOR b < 2 ^ 31" using assms by (intro XOR_upper) auto
  have "js_xor a b = signed_take_bit 31 (a XOR b)"
    by (simp add: js_xor_def word_wi_log_defs sint_sbintrunc')
  also have "\<dots> = a XOR b"
  proof -
    have "- (2 ^ 31) \<le> (0::int)" by simp
    from this lo have "- (2 ^ 31) \<le> a XOR b" by (rule order_trans)
    then show ?thesis using hi by (simp only: signed_take_bit_int_eq_self_iff)
  qed
  finally show ?thesis .
qed

lemma nat_xor_less:
  assumes "(a::nat) < 2 ^ n" "m < 2 ^ n"
  shows "a XOR m < 2 ^ n"
proof -
  have ia: "int a < 2 ^ n" using assms(1) by (metis of_nat_less_iff of_nat_numeral of_nat_power)
  have im: "int m < 2 ^ n" using assms(2) by (metis of_nat_less_iff of_nat_numeral of_nat_power)
  have "int a XOR int m < 2 ^ n"
    by (rule XOR_upper) (use ia im in simp_all)
  then have "int (a XOR m) < int (2 ^ n)" by (simp add: of_nat_xor_eq)
  then show ?thesis by (simp only: of_nat_less_iff)
qed

lemma js_xor_undo:
  assumes "a < 2 ^ 16" "m < 2 ^ 16"
  shows "js_xor (int (a XOR m)) (int m) = int (a::nat)"
proof -
  have x: "a XOR m < 2 ^ 16"
    using assms by (rule nat_xor_less)
  have "int (a XOR m) < 2 ^ 31" using x by simp
  moreover have "int m < 2 ^ 31" using assms(2) by simp
  ultimately have "js_xor (int (a XOR m)) (int m) = int (a XOR m) XOR int m"
    by (intro js_xor_small) simp_all
  also have "\<dots> = int a"
    by (simp add: of_nat_xor_eq xor.assoc)
  finally show ?thesis .
qed

lemma js_xor_bounds:
  assumes "0 \<le> a" "a < 2 ^ n" "0 \<le> b" "b < 2 ^ n" "n \<le> 31"
  shows "0 \<le> js_xor a b \<and> js_xor a b < 2 ^ n"
proof -
  have p: "(2::int) ^ n \<le> 2 ^ 31" using assms(5) by (intro power_increasing) auto
  have "js_xor a b = a XOR b" using assms p by (intro js_xor_small) auto
  moreover have "0 \<le> a XOR b" using assms by simp
  moreover have "a XOR b < 2 ^ n" using assms by (intro XOR_upper) auto
  ultimately show ?thesis by simp
qed

lemma magic_bytes:
  "js_and (js_ushr MAGIC_COOKIE 24) 0xFF = 0x21"
  "js_and (js_ushr MAGIC_COOKIE 16) 0xFF = 0x12"
  "js_and (js_ushr MAGIC_COOKIE 8) 0xFF = 0xA4"
  "js_and (js_ushr MAGIC_COOKIE 0) 0xFF = 0x42"
  by (simp_all add: js_and_def js_ushr_def MAGIC_COOKIE_def)

lemma magic_port: "js_ushr MAGIC_COOKIE 16 = 0x2112"
  by (simp add: js_ushr_def MAGIC_COOKIE_def)

lemma unmasked_eq:
  "unmasked msg offset 0 = js_xor (int (unat (msg ! (offset + 8)))) 0x21"
  "unmasked msg offset 1 = js_xor (int (unat (msg ! (offset + 9)))) 0x12"
  "unmasked msg offset 2 = js_xor (int (unat (msg ! (offset + 10)))) 0xA4"
  "unmasked msg offset 3 = js_xor (int (unat (msg ! (offset + 11)))) 0x42"
  by (simp_all add: unmasked_def magic_bytes add.commute)

subsection \<open>The address loop and the attribute body\<close>

lemma ipBytes_loop_all:
  "offset + 12 \<le> length msg \<Longrightarrow> i \<le> 4 \<Longrightarrow>
   ipBytes_loop msg offset i xs = Inr (xs @ map (unmasked msg offset) [i..<4])"
proof (induction msg offset i xs rule: ipBytes_loop.induct)
  case (1 msg offset i ipBytes)
  show ?case
  proof (cases "i < 4")
    case False
    with "1.prems" show ?thesis by (subst ipBytes_loop.simps) simp
  next
    case True
    have rd: "readUInt8 msg (offset + 8 + i) = Inr (unat (msg ! (offset + 8 + i)))"
      using True "1.prems" by (simp add: readUInt8_def)
    have "ipBytes_loop msg offset (i + 1) (ipBytes @ [unmasked msg offset i]) =
        Inr ((ipBytes @ [unmasked msg offset i]) @ map (unmasked msg offset) [i + 1..<4])"
      using "1.IH"[OF True refl rd] "1.prems" True by (simp add: unmasked_def)
    moreover have "[i..<4] = i # [i + 1..<4]"
      using True by (simp add: upt_conv_Cons)
    ultimately show ?thesis
      using True rd by (subst ipBytes_loop.simps) (simp add: Let_def unmasked_def)
  qed
qed

lemma upt_0_4: "[0..<4] = [0, 1, 2, 3]"
  by (simp add: upt_rec numeral_eq_Suc)

lemma ipBytes_loop_in_range:
  assumes "offset + 12 \<le> length msg"
  shows "ipBytes_loop msg offset 0 [] =
     Inr [unmasked msg offset 0, unmasked msg offset 1, unmasked msg offset 2, unmasked msg offset 3]"
  using ipBytes_loop_all[OF assms, of 0 "[]"] by (simp only: upt_0_4 list.map append_Nil le0)

lemma ipBytes_loop_short:
  "i < 4 \<Longrightarrow> length msg < offset + 12 \<Longrightarrow> ipBytes_loop msg offset i xs = Inl RangeError"
proof (induction msg offset i xs rule: ipBytes_loop.induct)
  case (1 msg offset i ipBytes)
  show ?case
  proof (cases "readUInt8 msg (offset + 8 + i)")
    case (Inl e)
    then have "e = RangeError" by (auto simp: readUInt8_def split: if_splits)
    with Inl "1.prems" show ?thesis by (subst ipBytes_loop.simps) simp
  next
    case (Inr b)
    then have "offset + 8 + i < length msg" by (auto simp: readUInt8_def split: if_splits)
    with "1.prems" have "i + 1 < 4" by simp
    from "1.IH"[OF "1.prems"(1) refl Inr this "1.prems"(2)] Inr "1.prems"(1)
    show ?thesis by (subst ipBytes_loop.simps) (simp add: Let_def)
  qed
qed

lemma decode_attribute_in_range:
  assumes "offset + 12 \<le> length msg"
  shows "decode_attribute msg offset =
     Inr \<lparr>ip = join_dot [unmasked msg offset 0, unmasked msg offset 1,
                          unmasked msg offset 2, unmasked msg offset 3],
          port = js_xor (int (u16_at msg (offset + 6))) 0x2112\<rparr>"
proof -
  have "readUInt8 msg (offset + 5) = Inr (unat (msg ! (offset + 5)))"
    using assms by (simp add: readUInt8_def)
  moreover have "readUInt16BE msg (offset + 6) = Inr (u16_at msg (offset + 6))"
    using assms by (simp add: readUInt16BE_def u16_at_def)
  ultimately show ?thesis
    unfolding decode_attribute_def
    by (simp only: sum.case Let_def magic_port ipBytes_loop_in_range[OF assms])
qed

lemma decode_attribute_short:
  assumes "length msg < offset + 12"
  shows "decode_attribute msg offset = Inl RangeError"
proof -
  have "ipBytes_loop msg offset 0 [] = Inl RangeError"
    using assms by (intro ipBytes_loop_short) auto
  then show ?thesis
    by (auto simp: decode_attribute_def Let_def readUInt8_def readUInt16BE_def split: sum.splits if_splits)
qed

subsection \<open>The four cases of one iteration of the walk\<close>

lemma read16_in_range: "off + 2 \<le> length msg \<Longrightarrow> readUInt16BE msg off = Inr (u16_at msg off)"
  by (simp add: readUInt16BE_def u16_at_def)

lemma read16_short: "length msg < off + 2 \<Longrightarrow> readUInt16BE msg off = Inl RangeError"
  by (simp add: readUInt16BE_def)

lemma walk_done: "length msg \<le> offset \<Longrightarrow> walk msg offset = Inl NoXorMappedAddress"
  by (subst walk.simps) simp

lemma walk_header_short:
  assumes "offset < length msg" "length msg < offset + 4"
  shows "walk msg offset = Inl RangeError"
proof (cases "offset + 2 \<le> length msg")
  case False
  then have "readUInt16BE msg offset = Inl RangeError" by (simp add: read16_short)
  with assms(1) show ?thesis by (subst walk.simps) simp
next
  case True
  then have a: "readUInt16BE msg offset = Inr (u16_at msg offset)" by (rule read16_in_range)
  have "length msg < (offset + 2) + 2" using assms(2) by simp
  then have b: "readUInt16BE msg (offset + 2) = Inl RangeError" by (rule read16_short)
  from assms(1) a b show ?thesis by (subst walk.simps) simp
qed

lemma walk_header:
  assumes "offset + 4 \<le> length msg"
  shows "walk msg offset =
     (if u16_at msg offset = XOR_MAPPED_ADDRESS_TYPE then decode_attribute msg offset
      else walk msg (next_offset offset (u16_at msg (offset + 2))))"
proof -
  have lt: "offset < length msg" using assms by simp
  have "offset + 2 \<le> length msg" using assms by simp
  then have a: "readUInt16BE msg offset = Inr (u16_at msg offset)" by (rule read16_in_range)
  have "(offset + 2) + 2 \<le> length msg" using assms by simp
  then have b: "readUInt16BE msg (offset + 2) = Inr (u16_at msg (offset + 2))"
    by (rule read16_in_range)
  from lt a b show ?thesis by (subst walk.simps) simp
qed

subsection \<open>Reading behind a prefix\<close>

lemma unmasked_append: "unmasked (pre @ xs) (length pre + k) i = unmasked xs k i"
  by (simp add: unmasked_def nth_append add.assoc)

lemma u16_at_append: "u16_at (pre @ xs) (length pre + k) = u16_at xs k"
  by (simp add: u16_at_def nth_append add.assoc)

lemma decode_attribute_append:
  "decode_attribute (pre @ xs) (length pre + k) = decode_attribute xs k"
proof (cases "k + 12 \<le> length xs")
  case True
  then have "(length pre + k) + 12 \<le> length (pre @ xs)" by simp
  from decode_attribute_in_range[OF this] decode_attribute_in_range[OF True]
  show ?thesis
    by (simp only: unmasked_append u16_at_append add.assoc)
next
  case False
  then have "length xs < k + 12" "length (pre @ xs) < (length pre + k) + 12" by simp_all
  then show ?thesis by (simp only: decode_attribute_short)
qed

lemma next_offset_shift: "next_offset (n + k) l = n + next_offset k l"
  by (simp add: next_offset_def)

lemma walk_append: "walk (pre @ xs) (length pre + k) = walk xs k"
proof (induction xs k rule: walk.induct)
  case (1 msg offset)
  consider (exhausted) "length msg \<le> offset"
    | (short) "offset < length msg" "length msg < offset + 4"
    | (header) "offset + 4 \<le> length msg"
    by linarith
  then show ?case
  proof cases
    case exhausted
    then have "length (pre @ msg) \<le> length pre + offset" by simp
    with exhausted show ?thesis by (simp only: walk_done)
  next
    case short
    then have "length pre + offset < length (pre @ msg)"
      "length (pre @ msg) < (length pre + offset) + 4" by simp_all
    with short show ?thesis by (simp only: walk_header_short)
  next
    case header
    then have h': "(length pre + offset) + 4 \<le> length (pre @ msg)" by simp
    have t: "u16_at (pre @ msg) (length pre + offset) = u16_at msg offset"
      by (rule u16_at_append)
    have l: "u16_at (pre @ msg) (length pre + offset + 2) = u16_at msg (offset + 2)"
      using u16_at_append[of pre msg "offset + 2"] by (simp only: add.assoc)
    show ?thesis
    proof (cases "u16_at msg offset = XOR_MAPPED_ADDRESS_TYPE")
      case True
      then show ?thesis
        by (simp only: walk_header[OF h'] walk_header[OF header] t l if_True refl
            decode_attribute_append)
    next
      case False
      have lt: "offset < length msg" using header by simp
      have a: "readUInt16BE msg offset = Inr (u16_at msg offset)"
        using header by (intro read16_in_range) simp
      have b: "readUInt16BE msg (offset + 2) = Inr (u16_at msg (offset + 2))"
        using header by (intro read16_in_range) simp
      from "1.IH"[OF lt a b False]
      have "walk (pre @ msg) (length pre + next_offset offset (u16_at msg (offset + 2))) =
            walk msg (next_offset offset (u16_at msg (offset + 2)))" .
      with False show ?thesis
        by (simp only: walk_header[OF h'] walk_header[OF header] t l if_False
            next_offset_shift)
    qed
  qed
qed

lemma walk_drop: "walk (pre @ xs) (length pre) = walk xs 0"
  using walk_append[of pre xs 0] by simp

lemma pad_len_rounds: "(l + pad_len l) mod 4 = 0 \<and> pad_len l < 4"
proof -
  have m: "(l + pad_len l) mod 4 = (l mod 4 + pad_len l) mod 4"
    by (simp add: mod_add_left_eq)
  have "l mod 4 < 4" by simp
  then consider "l mod 4 = 0" | "l mod 4 = 1" | "l mod 4 = 2" | "l mod 4 = 3"
    by linarith
  then show ?thesis
  proof cases
    case 1
    then have "pad_len l = 0" by (simp add: pad_len_def)
    with 1 m show ?thesis by simp
  next
    case 2
    then have "pad_len l = 3" by (simp add: pad_len_def)
    with 2 m show ?thesis by simp
  next
    case 3
    then have "pad_len l = 2" by (simp add: pad_len_def)
    with 3 m show ?thesis by simp
  next
    case 4
    then have "pad_len l = 1" by (simp add: pad_len_def)
    with 4 m show ?thesis by simp
  qed
qed

lemma length_u16be: "length (u16be n) = 2"
  by (simp add: u16be_def)
lemma length_tlv: "length (tlv t v) = 4 + length v + pad_len (length v)"
  by (simp add: tlv_def length_u16be)
lemma byte_of_nat: "n < 256 \<Longrightarrow> unat (of_nat n :: byte) = n"
  by (simp add: unat_of_nat)

lemma u16_at_u16be:
  assumes "n < 65536"
  shows "u16_at (u16be n @ rest) 0 = n"
proof -
  have "n div 256 < 256" using assms by simp
  then have "unat (of_nat (n div 256) :: byte) = n div 256" by (rule byte_of_nat)
  moreover have "unat (of_nat (n mod 256) :: byte) = n mod 256" by (rule byte_of_nat) simp
  ultimately show ?thesis by (simp add: u16_at_def u16be_def)
qed
lemma next_offset_eq: "next_offset off l = off + 4 + l + pad_len l"
proof -
  have "l mod 4 < 4" by simp
  then show ?thesis by (auto simp: next_offset_def pad_len_def)
qed

lemma walk_tlv_skip:
  assumes "unrelated (t, v)"
  shows "walk (tlv t v @ rest) 0 = walk rest 0"
proof -
  let ?m = "tlv t v @ rest"
  let ?tail = "u16be (length v) @ v @ replicate (pad_len (length v)) 0 @ rest"
  have t: "t < 65536" "t \<noteq> 0x0020" and v: "length v < 65536"
    using assms by (simp_all add: unrelated_def)
  have m: "?m = u16be t @ ?tail" by (simp add: tlv_def)
  have h: "0 + 4 \<le> length ?m" by (simp add: length_tlv)
  have ty: "u16_at ?m 0 = t"
    unfolding m by (rule u16_at_u16be[OF t(1)])
  have "u16_at (u16be t @ ?tail) (length (u16be t) + 0) = u16_at ?tail 0"
    by (rule u16_at_append)
  also have "\<dots> = length v" by (rule u16_at_u16be[OF v])
  finally have ln: "u16_at ?m (0 + 2) = length v"
    unfolding m length_u16be by (simp only: add_0_right add_0)
  have "walk ?m 0 = walk ?m (next_offset 0 (length v))"
    using t(2) by (simp only: walk_header[OF h] ty ln XOR_MAPPED_ADDRESS_TYPE_def if_False)
  also have "next_offset 0 (length v) = length (tlv t v)"
    by (simp add: next_offset_eq length_tlv)
  also have "walk ?m (length (tlv t v)) = walk rest 0"
    by (rule walk_drop)
  finally show ?thesis .
qed

lemma walk_attributes_skip:
  "\<forall>tv \<in> set tvs. unrelated tv \<Longrightarrow> walk (attributes tvs @ rest) 0 = walk rest 0"
proof (induction tvs)
  case Nil
  then show ?case by (simp add: attributes_def)
next
  case (Cons tv tvs)
  have "attributes (tv # tvs) @ rest = tlv (fst tv) (snd tv) @ (attributes tvs @ rest)"
    by (simp add: attributes_def)
  moreover have "unrelated (fst tv, snd tv)" using Cons.prems by simp
  ultimately have "walk (attributes (tv # tvs) @ rest) 0 = walk (attributes tvs @ rest) 0"
    by (simp only: walk_tlv_skip)
  with Cons show ?case by simp
qed

lemma xor_mapped_address_bytes:
  "xor_mapped_address a b c d p =
     [0, 0x20, 0, 8, 0, 1,
      of_nat ((p XOR 0x2112) div 256), of_nat ((p XOR 0x2112) mod 256),
      of_nat (a XOR 0x21), of_nat (b XOR 0x12), of_nat (c XOR 0xA4), of_nat (d XOR 0x42)]"
  by (simp add: xor_mapped_address_def tlv_def u16be_def pad_len_def)

lemma unmask_octet:
  assumes "a < 256" "m < 256"
  shows "js_xor (int (unat (of_nat (a XOR m) :: byte))) (int m) = int a"
proof -
  have "a XOR m < 2 ^ 8" using assms by (intro nat_xor_less) simp_all
  then have "unat (of_nat (a XOR m) :: byte) = a XOR m" by (intro byte_of_nat) simp
  moreover have "js_xor (int (a XOR m)) (int m) = int a"
    using assms by (intro js_xor_undo) simp_all
  ultimately show ?thesis by simp
qed

lemma number_str_int: "number_str (int n) = nat_str n"
  by (simp add: number_str_def)

lemma walk_xor_mapped_address:
  assumes "a < 256" "b < 256" "c < 256" "d < 256" "p < 65536"
  shows "walk (xor_mapped_address a b c d p @ rest) 0 =
           Inr \<lparr>ip = dotted_quad a b c d, port = int p\<rparr>"
proof -
  let ?m = "xor_mapped_address a b c d p @ rest"
  have h: "0 + 4 \<le> length ?m" and r: "0 + 12 \<le> length ?m"
    by (simp_all add: xor_mapped_address_bytes)
  have ty: "u16_at ?m 0 = XOR_MAPPED_ADDRESS_TYPE"
    by (simp add: xor_mapped_address_bytes u16_at_def XOR_MAPPED_ADDRESS_TYPE_def)
  have px: "p XOR 0x2112 < 2 ^ 16" using assms(5) by (intro nat_xor_less) simp_all
  have "u16_at (u16be (p XOR 0x2112) @ []) 0 = p XOR 0x2112"
    using px by (intro u16_at_u16be) simp
  then have "u16_at ?m 6 = p XOR 0x2112"
    by (simp add: xor_mapped_address_bytes u16_at_def u16be_def)
  moreover have "js_xor (int (p XOR 0x2112)) (int 0x2112) = int p"
    using assms(5) by (intro js_xor_undo) simp_all
  ultimately have pt: "js_xor (int (u16_at ?m (0 + 6))) 0x2112 = int p"
    by (simp only: add_0 of_nat_numeral)
  have b8: "?m ! (0 + 8) = of_nat (a XOR 0x21)" by (simp add: xor_mapped_address_bytes)
  have b9: "?m ! (0 + 9) = of_nat (b XOR 0x12)" by (simp add: xor_mapped_address_bytes)
  have b10: "?m ! (0 + 10) = of_nat (c XOR 0xA4)" by (simp add: xor_mapped_address_bytes)
  have b11: "?m ! (0 + 11) = of_nat (d XOR 0x42)" by (simp add: xor_mapped_address_bytes)
  have o0: "unmasked ?m 0 0 = int a"
    using unmask_octet[OF assms(1), of "0x21"] by (simp only: unmasked_eq b8 of_nat_numeral)
  have o1: "unmasked ?m 0 1 = int b"
    using unmask_octet[OF assms(2), of "0x12"] by (simp only: unmasked_eq b9 of_nat_numeral)
  have o2: "unmasked ?m 0 2 = int c"
    using unmask_octet[OF assms(3), of "0xA4"] by (simp only: unmasked_eq b10 of_nat_numeral)
  have o3: "unmasked ?m 0 3 = int d"
    using unmask_octet[OF assms(4), of "0x42"] by (simp only: unmasked_eq b11 of_nat_numeral)
  have "walk ?m 0 = decode_attribute ?m 0"
    by (simp only: walk_header[OF h] ty if_True refl)
  also have "\<dots> = Inr \<lparr>ip = join_dot [int a, int b, int c, int d], port = int p\<rparr>"
    by (simp only: decode_attribute_in_range[OF r] pt o0 o1 o2 o3)
  also have "join_dot [int a, int b, int c, int d] = dotted_quad a b c d"
    by (simp add: dotted_quad_def number_str_int)
  finally show ?thesis .
qed

lemma decodeResponse_binding_response:
  assumes "length txid = 12"
  shows "decodeResponse (binding_response txid body) = walk body 0"
proof -
  let ?h = "u16be 0x0101 @ u16be (length body) @ [0x21, 0x12, 0xA4, 0x42] @ txid"
  have len: "length ?h = 20" using assms by (simp add: length_u16be)
  have eq: "binding_response txid body = ?h @ body" by (simp add: binding_response_def)
  have "0 + 2 \<le> length (binding_response txid body)" using len by (simp add: eq)
  then have "readUInt16BE (binding_response txid body) 0 = Inr (u16_at (binding_response txid body) 0)"
    by (rule read16_in_range)
  moreover have "u16_at (binding_response txid body) 0 = 0x0101"
    using u16_at_u16be[of "0x0101"] by (simp add: binding_response_def)
  moreover have "walk (?h @ body) (length ?h) = walk body 0" by (rule walk_drop)
  then have "walk (binding_response txid body) 20 = walk body 0" by (simp only: eq len)
  ultimately show ?thesis
    by (simp add: decodeResponse_def decodeXorAddress_def BINDING_RESPONSE_TYPE_def)
qed

lemma decodeResponse_encoded:
  assumes "length txid = 12" "\<forall>tv \<in> set tvs. unrelated tv"
    and "a < 256" "b < 256" "c < 256" "d < 256" "p < 65536"
  shows "decodeResponse (binding_response txid (attributes tvs @ xor_mapped_address a b c d p @ rest)) =
           Inr \<lparr>ip = dotted_quad a b c d, port = int p\<rparr>"
  by (simp only: decodeResponse_binding_response[OF assms(1)] walk_attributes_skip[OF assms(2)]
      walk_xor_mapped_address[OF assms(3-7)])

lemma attributes_Nil: "attributes [] = []"
  by (simp add: attributes_def)

subsection \<open>Where the walk stops\<close>

lemma walks_to_walk: "walks_to msg a b \<Longrightarrow> walk msg a = walk msg b"
proof (induction rule: walks_to.induct)
  case (here a)
  show ?case by simp
next
  case (skip a b)
  have "walk msg a = walk msg (next_offset a (u16_at msg (a + 2)))"
    using skip.hyps(2) by (simp only: walk_header[OF skip.hyps(1)] XOR_MAPPED_ADDRESS_TYPE_def if_False)
  with skip.IH show ?case by (simp only: next_offset_eq)
qed

lemma walk_stops:
  "\<exists>b. walks_to msg a b \<and> (length msg < b + 4 \<or> u16_at msg b = 0x0020)"
proof (induction msg a rule: walk.induct)
  case (1 msg offset)
  show ?case
  proof (cases "length msg < offset + 4 \<or> u16_at msg offset = 0x0020")
    case True
    then show ?thesis using walks_to.here[of msg offset] by blast
  next
    case False
    then have h: "offset + 4 \<le> length msg" and ty: "u16_at msg offset \<noteq> 0x0020" by simp_all
    have lt: "offset < length msg" using h by simp
    have r1: "readUInt16BE msg offset = Inr (u16_at msg offset)"
      using h by (intro read16_in_range) simp
    have r2: "readUInt16BE msg (offset + 2) = Inr (u16_at msg (offset + 2))"
      using h by (intro read16_in_range) simp
    have "u16_at msg offset \<noteq> XOR_MAPPED_ADDRESS_TYPE"
      using ty by (simp add: XOR_MAPPED_ADDRESS_TYPE_def)
    from "1.IH"[OF lt r1 r2 this]
    obtain b where b: "walks_to msg (next_offset offset (u16_at msg (offset + 2))) b"
      "length msg < b + 4 \<or> u16_at msg b = 0x0020" by blast
    from b(1) have "walks_to msg offset b"
      unfolding next_offset_eq by (rule walks_to.skip[OF h ty])
    with b(2) show ?thesis by blast
  qed
qed

lemma walk_at_stop:
  assumes "length msg < b + 4 \<or> u16_at msg b = 0x0020"
  shows "walk msg b =
     (if length msg \<le> b then Inl NoXorMappedAddress
      else if length msg < b + 12 then Inl RangeError
      else decode_attribute msg b)"
proof -
  consider (exhausted) "length msg \<le> b"
    | (short) "b < length msg" "length msg < b + 4"
    | (found) "b + 4 \<le> length msg" "u16_at msg b = 0x0020"
    using assms by linarith
  then show ?thesis
  proof cases
    case exhausted
    then show ?thesis by (simp add: walk_done)
  next
    case short
    then show ?thesis by (simp add: walk_header_short)
  next
    case found
    then have "walk msg b = decode_attribute msg b"
      by (simp add: walk_header XOR_MAPPED_ADDRESS_TYPE_def)
    with found(1) show ?thesis by (simp add: decode_attribute_short)
  qed
qed

lemma walk_NoXor_iff:
  "walk msg a = Inl NoXorMappedAddress \<longleftrightarrow> (\<exists>b. walks_to msg a b \<and> length msg \<le> b)"
proof
  assume w: "walk msg a = Inl NoXorMappedAddress"
  obtain b where b: "walks_to msg a b" "length msg < b + 4 \<or> u16_at msg b = 0x0020"
    using walk_stops by blast
  have "walk msg b = Inl NoXorMappedAddress" using w walks_to_walk[OF b(1)] by simp
  then have "length msg \<le> b"
    unfolding walk_at_stop[OF b(2)]
    by (cases "b + 12 \<le> length msg") (auto simp: decode_attribute_in_range split: if_splits)
  with b(1) show "\<exists>b. walks_to msg a b \<and> length msg \<le> b" by blast
next
  assume "\<exists>b. walks_to msg a b \<and> length msg \<le> b"
  then obtain b where "walks_to msg a b" "length msg \<le> b" by blast
  then show "walk msg a = Inl NoXorMappedAddress"
    using walks_to_walk walk_done by simp
qed

lemma walk_Inr_iff:
  "(\<exists>r. walk msg a = Inr r) \<longleftrightarrow>
   (\<exists>b. walks_to msg a b \<and> b + 12 \<le> length msg \<and> u16_at msg b = 0x0020)"
proof
  assume "\<exists>r. walk msg a = Inr r"
  then obtain r where w: "walk msg a = Inr r" ..
  obtain b where b: "walks_to msg a b" "length msg < b + 4 \<or> u16_at msg b = 0x0020"
    using walk_stops by blast
  have "walk msg b = Inr r" using w walks_to_walk[OF b(1)] by simp
  then have "b + 12 \<le> length msg"
    unfolding walk_at_stop[OF b(2)] by (auto split: if_splits)
  moreover from this b(2) have "u16_at msg b = 0x0020" by auto
  ultimately show "\<exists>b. walks_to msg a b \<and> b + 12 \<le> length msg \<and> u16_at msg b = 0x0020"
    using b(1) by blast
next
  assume "\<exists>b. walks_to msg a b \<and> b + 12 \<le> length msg \<and> u16_at msg b = 0x0020"
  then obtain b where b: "walks_to msg a b" "b + 12 \<le> length msg" "u16_at msg b = 0x0020"
    by blast
  have "walk msg a = walk msg b" using b(1) by (rule walks_to_walk)
  also have "\<dots> = decode_attribute msg b"
    using b(2,3) by (simp add: walk_at_stop)
  finally show "\<exists>r. walk msg a = Inr r"
    using decode_attribute_in_range[OF b(2)] by simp
qed

lemma walk_RangeError_iff:
  "walk msg a = Inl RangeError \<longleftrightarrow>
   (\<exists>b. walks_to msg a b \<and> b < length msg \<and>
        (length msg < b + 4 \<or> (u16_at msg b = 0x0020 \<and> length msg < b + 12)))"
proof
  assume w: "walk msg a = Inl RangeError"
  obtain b where b: "walks_to msg a b" "length msg < b + 4 \<or> u16_at msg b = 0x0020"
    using walk_stops by blast
  have "walk msg b = Inl RangeError" using w walks_to_walk[OF b(1)] by simp
  then have "b < length msg \<and> length msg < b + 12"
    unfolding walk_at_stop[OF b(2)]
    by (cases "b + 12 \<le> length msg") (auto simp: decode_attribute_in_range split: if_splits)
  with b show "\<exists>b. walks_to msg a b \<and> b < length msg \<and>
        (length msg < b + 4 \<or> (u16_at msg b = 0x0020 \<and> length msg < b + 12))" by blast
next
  assume "\<exists>b. walks_to msg a b \<and> b < length msg \<and>
        (length msg < b + 4 \<or> (u16_at msg b = 0x0020 \<and> length msg < b + 12))"
  then obtain b where b: "walks_to msg a b" "b < length msg"
    "length msg < b + 4 \<or> (u16_at msg b = 0x0020 \<and> length msg < b + 12)" by blast
  have "walk msg a = walk msg b" using b(1) by (rule walks_to_walk)
  also have "\<dots> = Inl RangeError"
    using b(2,3) by (auto simp: walk_at_stop)
  finally show "walk msg a = Inl RangeError" .
qed

lemma walk_errors: "walk msg a = Inl e \<Longrightarrow> e = RangeError \<or> e = NoXorMappedAddress"
proof -
  assume w: "walk msg a = Inl e"
  obtain b where b: "walks_to msg a b" "length msg < b + 4 \<or> u16_at msg b = 0x0020"
    using walk_stops by blast
  have "walk msg b = Inl e" using w walks_to_walk[OF b(1)] by simp
  then show ?thesis
    unfolding walk_at_stop[OF b(2)]
    by (cases "b + 12 \<le> length msg") (auto simp: decode_attribute_in_range split: if_splits)
qed

subsection \<open>Round trip, padding and ranges\<close>

lemma dotted_quad_example: "dotted_quad 192 168 7 255 = ''192.168.7.255''"
  by (simp add: dotted_quad_def nat_str.simps digit_char_def)

lemma unrelated_example: "\<forall>tv \<in> set [(0x8022, [1, 2, 3 :: byte])]. unrelated tv"
  by (simp add: unrelated_def)

text \<open>
  Claim C3. For every IPv4 address (four octets below 256) and every port below 65536, a
  response whose XOR-MAPPED-ADDRESS attribute carries the port masked with \<open>0x2112\<close> and
  the octets masked with \<open>0x21\<close>, \<open>0x12\<close>, \<open>0xA4\<close>, \<open>0x42\<close> decodes to exactly the
  dotted-quad string of the octets and the port.
\<close>

theorem xor_mapped_address_round_trip:
  assumes "length txid = 12" "a < 256" "b < 256" "c < 256" "d < 256" "p < 65536"
  shows "decodeResponse (binding_response txid (xor_mapped_address a b c d p)) =
           Inr \<lparr>ip = dotted_quad a b c d, port = int p\<rparr>"
proof -
  have "\<forall>tv \<in> set []. unrelated tv" by simp
  from decodeResponse_encoded[OF assms(1) this assms(2-6), of "[]"]
  show ?thesis by (simp only: attributes_Nil append_Nil append_Nil2)
qed

theorem xor_mapped_address_round_trip_witness:
  "decodeResponse (binding_response (replicate 12 7) (xor_mapped_address 192 168 7 255 4660)) =
     Inr \<lparr>ip = ''192.168.7.255'', port = 4660\<rparr>"
  using xor_mapped_address_round_trip[of "replicate 12 7" 192 168 7 255 4660]
  by (simp add: dotted_quad_example)

text \<open>
  Claim C4. The walk advances by 4 + length + padding, the padding rounding the length up
  to a multiple of four; so whatever unrelated attributes come first, of odd length or
  not, and whatever bytes follow, the XOR-MAPPED-ADDRESS attribute is decoded correctly.
\<close>

theorem attribute_walk_honours_padding:
  assumes "length txid = 12" "\<forall>tv \<in> set tvs. unrelated tv"
    and "a < 256" "b < 256" "c < 256" "d < 256" "p < 65536"
  shows "next_offset off l = off + 4 + l + pad_len l \<and> (l + pad_len l) mod 4 = 0 \<and> pad_len l < 4 \<and>
         decodeResponse
           (binding_response txid (attributes tvs @ xor_mapped_address a b c d p @ rest)) =
           Inr \<lparr>ip = dotted_quad a b c d, port = int p\<rparr>"
  using decodeResponse_encoded[OF assms] next_offset_eq[of off l] pad_len_rounds[of l]
  by simp

theorem attribute_walk_honours_padding_witness:
  "next_offset 20 3 = 28 \<and>
   decodeResponse
     (binding_response (replicate 12 7)
        (attributes [(0x8022, [1, 2, 3])] @ xor_mapped_address 192 168 7 255 4660 @ [])) =
     Inr \<lparr>ip = ''192.168.7.255'', port = 4660\<rparr>"
  using attribute_walk_honours_padding[of "replicate 12 7" "[(0x8022, [1, 2, 3])]"
      192 168 7 255 4660 20 3 "[]"] unrelated_example
  by (simp add: dotted_quad_example pad_len_def)

lemma walk_Inr_decode:
  assumes "walk msg a = Inr r"
  shows "\<exists>b. b + 12 \<le> length msg \<and> decode_attribute msg b = Inr r"
proof -
  obtain b where b: "walks_to msg a b" "length msg < b + 4 \<or> u16_at msg b = 0x0020"
    using walk_stops by blast
  have w: "walk msg b = Inr r" using assms walks_to_walk[OF b(1)] by simp
  then have "b + 12 \<le> length msg"
    unfolding walk_at_stop[OF b(2)] by (auto split: if_splits)
  moreover from this w have "decode_attribute msg b = Inr r"
    unfolding walk_at_stop[OF b(2)] by (auto split: if_splits)
  ultimately show ?thesis by blast
qed

lemma unat_byte_less: "unat (x :: byte) < 256"
  using unsigned_less[of x, where 'a=nat] by simp

lemma uint_byte_less: "uint (x :: byte) < 256"
  using unsigned_less[of x, where 'a=int] by simp

lemma unmasked_octet:
  assumes "i < 4"
  shows "0 \<le> unmasked msg offset i \<and> unmasked msg offset i < 2 ^ 8"
proof -
  from assms consider "i = 0" | "i = 1" | "i = 2" | "i = 3" by linarith
  then show ?thesis
  proof cases
    case 1
    show ?thesis unfolding 1 unmasked_eq
      by (rule js_xor_bounds) (simp_all add: uint_byte_less)
  next
    case 2
    show ?thesis unfolding 2 unmasked_eq
      by (rule js_xor_bounds) (simp_all add: uint_byte_less)
  next
    case 3
    show ?thesis unfolding 3 unmasked_eq
      by (rule js_xor_bounds) (simp_all add: uint_byte_less)
  next
    case 4
    show ?thesis unfolding 4 unmasked_eq
      by (rule js_xor_bounds) (simp_all add: uint_byte_less)
  qed
qed

lemma u16_at_less: "u16_at msg off < 65536"
proof -
  have "unat (msg ! off) < 256" "unat (msg ! (off + 1)) < 256"
    by (rule unat_byte_less)+
  then show ?thesis unfolding u16_at_def by linarith
qed

lemma number_str_octet:
  assumes "0 \<le> x" "x < 2 ^ 8"
  shows "nat x \<le> 255 \<and> number_str x = nat_str (nat x)"
  using assms by (simp add: number_str_def)

text \<open>
  Claim C9. Whenever decoding succeeds, on any buffer, the port is between 0 and 65535 and
  the address is the dotted-quad string of four numbers between 0 and 255.
\<close>

theorem decoded_address_in_range:
  assumes "decodeResponse msg = Inr r"
  shows "0 \<le> port r \<and> port r \<le> 65535 \<and>
         (\<exists>a b c d. a \<le> 255 \<and> b \<le> 255 \<and> c \<le> 255 \<and> d \<le> 255 \<and> ip r = dotted_quad a b c d)"
proof -
  have "walk msg 20 = Inr r"
    using assms by (auto simp: decodeResponse_def decodeXorAddress_def split: sum.splits if_splits)
  then obtain off where off: "off + 12 \<le> length msg" "decode_attribute msg off = Inr r"
    using walk_Inr_decode by blast
  let ?o = "unmasked msg off"
  have r: "r = \<lparr>ip = join_dot [?o 0, ?o 1, ?o 2, ?o 3],
                 port = js_xor (int (u16_at msg (off + 6))) 0x2112\<rparr>"
    using off(2) unfolding decode_attribute_in_range[OF off(1)] by simp
  have "int (u16_at msg (off + 6)) < 2 ^ 16"
    using u16_at_less[of msg "off + 6"] by simp
  then have "0 \<le> js_xor (int (u16_at msg (off + 6))) 0x2112 \<and>
      js_xor (int (u16_at msg (off + 6))) 0x2112 < 2 ^ 16"
    by (intro js_xor_bounds) simp_all
  then have p: "0 \<le> port r \<and> port r \<le> 65535" unfolding r by simp
  have o: "\<And>i. i < 4 \<Longrightarrow> nat (?o i) \<le> 255 \<and> number_str (?o i) = nat_str (nat (?o i))"
    using unmasked_octet by (intro number_str_octet) simp_all
  have "ip r = dotted_quad (nat (?o 0)) (nat (?o 1)) (nat (?o 2)) (nat (?o 3))"
    unfolding r using o[of 0] o[of 1] o[of 2] o[of 3] by (simp add: dotted_quad_def)
  moreover have "nat (?o 0) \<le> 255" "nat (?o 1) \<le> 255" "nat (?o 2) \<le> 255" "nat (?o 3) \<le> 255"
    using o[of 0] o[of 1] o[of 2] o[of 3] by simp_all
  ultimately show ?thesis using p by blast
qed

theorem decoded_address_in_range_witness:
  "decodeResponse (binding_response (replicate 12 7) (xor_mapped_address 10 0 0 9 65535)) =
     Inr \<lparr>ip = dotted_quad 10 0 0 9, port = 65535\<rparr> \<and>
   0 \<le> port \<lparr>ip = dotted_quad 10 0 0 9, port = 65535\<rparr> \<and>
   port \<lparr>ip = dotted_quad 10 0 0 9, port = 65535\<rparr> \<le> 65535 \<and>
   (\<exists>a b c d. a \<le> 255 \<and> b \<le> 255 \<and> c \<le> 255 \<and> d \<le> 255 \<and>
      ip \<lparr>ip = dotted_quad 10 0 0 9, port = 65535\<rparr> = dotted_quad a b c d)"
proof -
  have "\<forall>tv \<in> set []. unrelated tv" by simp
  from decodeResponse_encoded[OF _ this, of "replicate 12 7" 10 0 0 9 65535 "[]"]
  have h: "decodeResponse (binding_response (replicate 12 7) (xor_mapped_address 10 0 0 9 65535)) =
     Inr \<lparr>ip = dotted_quad 10 0 0 9, port = 65535\<rparr>"
    by (simp add: attributes_Nil)
  from decoded_address_in_range[OF h] h show ?thesis by blast
qed

subsection \<open>The outcomes of decoding\<close>

lemma walks_to_le: "walks_to msg a b \<Longrightarrow> a \<le> b"
  by (induction rule: walks_to.induct) simp_all

lemma decodeResponse_cases:
  "decodeResponse msg =
     (if length msg < 2 then Inl RangeError
      else if u16_at msg 0 \<noteq> 0x0101 then Inl InvalidStunResponse
      else walk msg 20)"
proof (cases "length msg < 2")
  case True
  then have "readUInt16BE msg 0 = Inl RangeError" by (intro read16_short) simp
  with True show ?thesis by (simp add: decodeResponse_def)
next
  case False
  then have "readUInt16BE msg 0 = Inr (u16_at msg 0)" by (intro read16_in_range) simp
  with False show ?thesis
    by (simp add: decodeResponse_def decodeXorAddress_def BINDING_RESPONSE_TYPE_def)
qed

text \<open>
  Claim C6, amended. Decoding has four outcomes, not three. It fails with \<open>Invalid STUN
  response\<close> exactly when the buffer has its two leading bytes and they are not \<open>0x0101\<close>;
  with \<open>No XOR-MAPPED-ADDRESS found\<close> exactly when the leading type is right and the walk
  from offset 20 comes to the end of the buffer; it returns an address exactly when the
  walk comes to an attribute of type \<open>0x0020\<close> whose twelve bytes are inside the buffer;
  and it fails with a \<open>RangeError\<close> exactly when a read falls outside the buffer: the
  leading type, the four header bytes of an attribute, or the twelve bytes of the
  XOR-MAPPED-ADDRESS attribute. No other error comes out of the decoder.
\<close>

theorem decodeResponse_outcomes:
  "(decodeResponse msg = Inl InvalidStunResponse \<longleftrightarrow>
      2 \<le> length msg \<and> u16_at msg 0 \<noteq> 0x0101) \<and>
   (decodeResponse msg = Inl NoXorMappedAddress \<longleftrightarrow>
      2 \<le> length msg \<and> u16_at msg 0 = 0x0101 \<and>
      (\<exists>b. walks_to msg 20 b \<and> length msg \<le> b)) \<and>
   ((\<exists>r. decodeResponse msg = Inr r) \<longleftrightarrow>
      2 \<le> length msg \<and> u16_at msg 0 = 0x0101 \<and>
      (\<exists>b. walks_to msg 20 b \<and> b + 12 \<le> length msg \<and> u16_at msg b = 0x0020)) \<and>
   (decodeResponse msg = Inl RangeError \<longleftrightarrow>
      length msg < 2 \<or>
      u16_at msg 0 = 0x0101 \<and>
      (\<exists>b. walks_to msg 20 b \<and> b < length msg \<and>
           (length msg < b + 4 \<or> u16_at msg b = 0x0020 \<and> length msg < b + 12))) \<and>
   (\<forall>e. decodeResponse msg = Inl e \<longrightarrow>
      e = RangeError \<or> e = InvalidStunResponse \<or> e = NoXorMappedAddress)"
proof (intro conjI)
  show "decodeResponse msg = Inl InvalidStunResponse \<longleftrightarrow>
      2 \<le> length msg \<and> u16_at msg 0 \<noteq> 0x0101"
    using walk_errors[of msg 20 InvalidStunResponse]
    by (auto simp: decodeResponse_cases)
next
  show "decodeResponse msg = Inl NoXorMappedAddress \<longleftrightarrow>
      2 \<le> length msg \<and> u16_at msg 0 = 0x0101 \<and>
      (\<exists>b. walks_to msg 20 b \<and> length msg \<le> b)"
    unfolding walk_NoXor_iff[symmetric] by (simp add: decodeResponse_cases)
next
  show "(\<exists>r. decodeResponse msg = Inr r) \<longleftrightarrow>
      2 \<le> length msg \<and> u16_at msg 0 = 0x0101 \<and>
      (\<exists>b. walks_to msg 20 b \<and> b + 12 \<le> length msg \<and> u16_at msg b = 0x0020)"
    unfolding walk_Inr_iff[symmetric] by (simp add: decodeResponse_cases)
next
  have "walks_to msg 20 b \<Longrightarrow> b < length msg \<Longrightarrow> 2 \<le> length msg" for b
    using walks_to_le[of msg 20 b] by simp
  then have "walk msg 20 = Inl RangeError \<Longrightarrow> 2 \<le> length msg"
    unfolding walk_RangeError_iff by blast
  then show "decodeResponse msg = Inl RangeError \<longleftrightarrow>
      length msg < 2 \<or>
      u16_at msg 0 = 0x0101 \<and>
      (\<exists>b. walks_to msg 20 b \<and> b < length msg \<and>
           (length msg < b + 4 \<or> u16_at msg b = 0x0020 \<and> length msg < b + 12))"
    unfolding walk_RangeError_iff[symmetric] by (auto simp: decodeResponse_cases)
next
  show "\<forall>e. decodeResponse msg = Inl e \<longrightarrow>
      e = RangeError \<or> e = InvalidStunResponse \<or> e = NoXorMappedAddress"
    using walk_errors[of msg 20] by (auto simp: decodeResponse_cases split: if_splits)
qed

text \<open>A response that is its header only: the walk is over at once.\<close>

theorem decodeResponse_outcomes_witness:
  "decodeResponse [1, 1, 0, 0, 0x21, 0x12, 0xA4, 0x42, 0, 0, 0, 0, 0, 0, 0, 0, 0, 0, 0, 0] =
     Inl NoXorMappedAddress"
proof -
  let ?m = "[1, 1, 0, 0, 0x21, 0x12, 0xA4, 0x42, 0, 0, 0, 0, 0, 0, 0, 0, 0, 0, 0, 0] :: buffer"
  have "walks_to ?m 20 20 \<and> length ?m \<le> 20" by (simp add: walks_to.here)
  then have "\<exists>b. walks_to ?m 20 b \<and> length ?m \<le> b" by blast
  moreover have "2 \<le> length ?m \<and> u16_at ?m 0 = 0x0101" by (simp add: u16_at_def)
  ultimately show ?thesis using decodeResponse_outcomes[of ?m] by blast
qed

text \<open>
  The claim as first stated knows three outcomes. This response has the right leading
  type and an XOR-MAPPED-ADDRESS header at offset 20, but the datagram ends after the
  attribute's header: the read of the address family throws.
\<close>

theorem truncated_attribute_counterexample:
  "u16_at [1, 1, 0, 4, 0x21, 0x12, 0xA4, 0x42, 0, 0, 0, 0, 0, 0, 0, 0, 0, 0, 0, 0, 0, 0x20, 0, 8] 0 = 0x0101 \<and>
   u16_at [1, 1, 0, 4, 0x21, 0x12, 0xA4, 0x42, 0, 0, 0, 0, 0, 0, 0, 0, 0, 0, 0, 0, 0, 0x20, 0, 8] 20 = 0x0020 \<and>
   decodeResponse [1, 1, 0, 4, 0x21, 0x12, 0xA4, 0x42, 0, 0, 0, 0, 0, 0, 0, 0, 0, 0, 0, 0, 0, 0x20, 0, 8] =
     Inl RangeError"
proof -
  let ?m = "[1, 1, 0, 4, 0x21, 0x12, 0xA4, 0x42, 0, 0, 0, 0, 0, 0, 0, 0, 0, 0, 0, 0, 0, 0x20, 0, 8] :: buffer"
  have a: "u16_at ?m 0 = 0x0101" by (simp add: u16_at_def)
  have b: "u16_at ?m 20 = 0x0020" by (simp add: u16_at_def)
  have "walk ?m 20 = decode_attribute ?m 20"
    using b by (subst walk_header) (simp_all add: XOR_MAPPED_ADDRESS_TYPE_def)
  also have "\<dots> = Inl RangeError" by (rule decode_attribute_short) simp
  finally have "decodeResponse ?m = Inl RangeError"
    using a by (simp add: decodeResponse_cases)
  with a b show ?thesis by blast
qed

section \<open>The discovery transaction\<close>

lemma closeSocket_closed: "isClosed t \<Longrightarrow> closeSocket t = t"
  by (simp add: closeSocket_def)

lemma reject_settled: "settled t \<noteq> Pending \<Longrightarrow> reject e t = t"
  by (simp add: reject_def)

lemma resolve_settled: "settled t \<noteq> Pending \<Longrightarrow> resolve v t = t"
  by (simp add: resolve_def)

lemma handle_completed:
  assumes "isClosed t" "settled t \<noteq> Pending"
  shows "handle t e = t"
  using assms
  by (cases e) (simp_all add: closeSocket_closed reject_settled resolve_settled split: sum.splits)

lemma handle_all_completed:
  assumes "isClosed t" "settled t \<noteq> Pending"
  shows "handle_all t es = t"
  using assms by (induction es) (simp_all add: handle_completed)

lemma handle_not_terminal: "\<not> terminal e \<Longrightarrow> handle t e = t"
  by (cases e) simp_all

lemma handle_all_not_terminal: "\<forall>x \<in> set es. \<not> terminal x \<Longrightarrow> handle_all t es = t"
  by (induction es) (simp_all add: handle_not_terminal)

lemma handle_terminal:
  assumes "terminal e"
  shows "isClosed (handle getPublicAddress e) \<and> socket_closes (handle getPublicAddress e) = 1 \<and>
         settled (handle getPublicAddress e) \<noteq> Pending"
  using assms
  by (cases e)
    (simp_all add: getPublicAddress_def closeSocket_def reject_def resolve_def split: sum.splits)

lemma handle_all_append: "handle_all t (xs @ ys) = handle_all (handle_all t xs) ys"
  by (induction xs arbitrary: t) simp_all

text \<open>
  Claim C5. In every transaction the first terminal event (a response, the timeout, a
  socket error or a failed send) decides the outcome and closes the socket, once; every
  event after it, the timeout after a response among them, changes nothing: the socket is
  closed exactly once and the promise keeps what the first event gave it.
\<close>

theorem transaction_completes_once:
  assumes "terminal e" and "\<forall>x \<in> set before. \<not> terminal x"
  shows "handle_all getPublicAddress (before @ e # after) = handle getPublicAddress e \<and>
         socket_closes (handle getPublicAddress e) = 1 \<and>
         isClosed (handle getPublicAddress e) \<and>
         settled (handle getPublicAddress e) \<noteq> Pending \<and>
         (\<forall>later. handle (handle getPublicAddress e) later = handle getPublicAddress e)"
proof -
  let ?t = "handle getPublicAddress e"
  have t: "isClosed ?t" "socket_closes ?t = 1" "settled ?t \<noteq> Pending"
    using handle_terminal[OF assms(1)] by simp_all
  have "handle_all getPublicAddress (before @ e # after) = handle_all ?t after"
    by (simp add: handle_all_append handle_all_not_terminal[OF assms(2)])
  also have "\<dots> = ?t" using t(1,3) by (rule handle_all_completed)
  finally show ?thesis using t handle_completed[OF t(1,3)] by simp
qed

theorem transaction_completes_once_witness:
  "handle_all getPublicAddress
     [OnSent False,
      OnMessage (binding_response (replicate 12 7) (xor_mapped_address 10 0 0 9 65535)),
      OnTimeout, OnError ''closed''] =
   \<lparr>isClosed = True, socket_closes = 1,
    settled = Resolved \<lparr>ip = dotted_quad 10 0 0 9, port = 65535\<rparr>\<rparr>"
proof -
  let ?m = "binding_response (replicate 12 7) (xor_mapped_address 10 0 0 9 65535)"
  have "\<forall>tv \<in> set []. unrelated tv" by simp
  from decodeResponse_encoded[OF _ this, of "replicate 12 7" 10 0 0 9 65535 "[]"]
  have h: "decodeResponse ?m = Inr \<lparr>ip = dotted_quad 10 0 0 9, port = 65535\<rparr>"
    by (simp add: attributes_Nil)
  have "handle_all getPublicAddress ([OnSent False] @ OnMessage ?m # [OnTimeout, OnError ''closed'']) =
      handle getPublicAddress (OnMessage ?m)"
    using transaction_completes_once[of "OnMessage ?m" "[OnSent False]" "[OnTimeout, OnError ''closed'']"]
    by simp
  also have "\<dots> = \<lparr>isClosed = True, socket_closes = 1,
      settled = Resolved \<lparr>ip = dotted_quad 10 0 0 9, port = 65535\<rparr>\<rparr>"
    by (simp add: h getPublicAddress_def closeSocket_def resolve_def)
  finally show ?thesis by simp
qed

section \<open>The relay\<close>

subsection \<open>The message listener, case by case\<close>

lemma on_message_cases:
  "on_message is_open rnd s ws data =
     (if msg_type data = ''create-room'' then create_room rnd s ws
      else if msg_type data = ''join-room'' then join_room is_open s ws data
      else if msg_type data = ''webrtc-offer'' \<or> msg_type data = ''webrtc-answer'' \<or>
              msg_type data = ''webrtc-ice''
      then forward is_open s ws data
      else returns s)"
proof -
  have ret: "and_then (returns s) f = f s" for f
    by (simp add: and_then_def returns_def)
  have keep: "and_then out (\<lambda>s. returns s) = out" for out
    by (simp add: and_then_def returns_def)
  show ?thesis
    by (simp add: on_message_def ret keep)
qed

lemma createRoomId_loop_length: "createRoomId_loop code rs = Some roomId \<Longrightarrow> length roomId = 25"
  by (induction code rs rule: createRoomId_loop.induct) (auto split: if_splits)

lemma createRoomId_length: "createRoomId rnd = Some roomId \<Longrightarrow> length roomId = 25"
  by (auto simp: createRoomId_def createRoomId_loop_length split: list.splits)

lemma rooms_get_Room: "rooms_get s r = Room l \<longleftrightarrow> rooms s (property_key r) = Some l"
  by (auto simp: rooms_get_def split: option.splits)

subsection \<open>What one event keeps\<close>

lemma undefined_is_no_room_id: "room_ids_wf s \<Longrightarrow> rooms s ''undefined'' = None"
  by (auto simp: room_ids_wf_def)

lemma room_key:
  assumes "room_ids_wf s" "rooms s (property_key r) = Some l"
  shows "r = Some (property_key r)"
  using assms undefined_is_no_room_id[OF assms(1)]
  by (cases r) (simp_all add: property_key_def)

lemma on_close_state:
  "state_after (on_close s ws) = s \<or>
   (\<exists>roomId l. ws_roomId s ws = Some roomId \<and> rooms s roomId = Some l \<and>
      state_after (on_close s ws) =
        s\<lparr>rooms := (rooms s)(roomId :=
             (if filter (\<lambda>client. client \<noteq> ws) l = [] then None
              else Some (filter (\<lambda>client. client \<noteq> ws) l)))\<rparr>)"
  by (auto simp: on_close_def returns_def throws_def rooms_get_def property_key_def Let_def
      split: option.splits property.splits if_splits)

lemma on_message_state:
  "state_after (on_message is_open rnd s ws data) = s \<or>
   (\<exists>roomId. msg_type data = ''create-room'' \<and> createRoomId rnd = Some roomId \<and>
      state_after (on_message is_open rnd s ws data) =
        s\<lparr>rooms := (rooms s)(roomId \<mapsto> [ws]), ws_roomId := (ws_roomId s)(ws := Some roomId)\<rparr>) \<or>
   (\<exists>l. msg_type data = ''join-room'' \<and> rooms s (property_key (msg_roomId data)) = Some l \<and>
      state_after (on_message is_open rnd s ws data) =
        s\<lparr>rooms := (rooms s)(property_key (msg_roomId data) \<mapsto> l @ [ws]),
          ws_roomId := (ws_roomId s)(ws := msg_roomId data)\<rparr>)"
  by (auto simp: on_message_cases create_room_def join_room_def forward_def returns_def throws_def
      rooms_get_def Let_def split: option.splits property.splits if_splits)

lemma step_cases [case_names unchanged created joined left]:
  assumes "state_after (step is_open s e) = s \<Longrightarrow> P"
    and "\<And>ws rnd data roomId. e = Message ws rnd data \<Longrightarrow> msg_type data = ''create-room'' \<Longrightarrow>
           createRoomId rnd = Some roomId \<Longrightarrow>
           state_after (step is_open s e) =
             s\<lparr>rooms := (rooms s)(roomId \<mapsto> [ws]),
               ws_roomId := (ws_roomId s)(ws := Some roomId)\<rparr> \<Longrightarrow> P"
    and "\<And>ws rnd data l. e = Message ws rnd data \<Longrightarrow> msg_type data = ''join-room'' \<Longrightarrow>
           rooms s (property_key (msg_roomId data)) = Some l \<Longrightarrow>
           state_after (step is_open s e) =
             s\<lparr>rooms := (rooms s)(property_key (msg_roomId data) \<mapsto> l @ [ws]),
               ws_roomId := (ws_roomId s)(ws := msg_roomId data)\<rparr> \<Longrightarrow> P"
    and "\<And>ws roomId l. e = Close ws \<Longrightarrow> ws_roomId s ws = Some roomId \<Longrightarrow>
           rooms s roomId = Some l \<Longrightarrow>
           state_after (step is_open s e) =
             s\<lparr>rooms := (rooms s)(roomId :=
                  (if filter (\<lambda>client. client \<noteq> ws) l = [] then None
                   else Some (filter (\<lambda>client. client \<noteq> ws) l)))\<rparr> \<Longrightarrow> P"
  shows P
proof (cases e)
  case (Message ws rnd data)
  show ?thesis
    using on_message_state[of is_open rnd s ws data] assms(1,2,3)[unfolded Message step.simps] Message
    by blast
next
  case (Close ws)
  show ?thesis
    using on_close_state[of s ws] assms(1,4)[unfolded Close step.simps] Close
    by blast
qed

lemma step_ids_wf:
  assumes "room_ids_wf s"
  shows "room_ids_wf (state_after (step is_open s e))"
proof (cases rule: step_cases[of is_open s e])
  case unchanged
  with assms show ?thesis by simp
next
  case (created ws rnd data roomId)
  show ?thesis
    unfolding created(4) using assms createRoomId_length[OF created(3)]
    by (auto simp: room_ids_wf_def split: if_splits)
next
  case (joined ws rnd data l)
  show ?thesis
    unfolding joined(4) using assms joined(3)
    by (auto simp: room_ids_wf_def split: if_splits)
next
  case (left ws roomId l)
  show ?thesis
    unfolding left(4) using assms left(3)
    by (auto simp: room_ids_wf_def split: if_splits)
qed

lemma step_nonempty:
  assumes "rooms_nonempty s"
  shows "rooms_nonempty (state_after (step is_open s e))"
proof (cases rule: step_cases[of is_open s e])
  case unchanged
  with assms show ?thesis by simp
next
  case (created ws rnd data roomId)
  show ?thesis
    unfolding created(4) using assms
    by (auto simp: rooms_nonempty_def split: if_splits)
next
  case (joined ws rnd data l)
  show ?thesis
    unfolding joined(4) using assms
    by (auto simp: rooms_nonempty_def split: if_splits)
next
  case (left ws roomId l)
  show ?thesis
    unfolding left(4) using assms
    by (auto simp: rooms_nonempty_def split: if_splits)
qed

lemma step_back_refs:
  assumes "room_ids_wf s" "back_refs s" "rooms_distinct s" "first_room_only s e"
  shows "back_refs (state_after (step is_open s e)) \<and>
         rooms_distinct (state_after (step is_open s e))"
proof (cases rule: step_cases[of is_open s e])
  case unchanged
  with assms show ?thesis by simp
next
  case (created ws rnd data roomId)
  have fresh: "ws_roomId s ws = None"
    using assms(4) created(1,2) by simp
  then have "\<And>r l. rooms s r = Some l \<Longrightarrow> ws \<notin> set l"
    using assms(2) by (auto simp: back_refs_def)
  then show ?thesis
    unfolding created(4) using assms(2,3)
    by (auto simp: back_refs_def rooms_distinct_def split: if_splits)
next
  case (joined ws rnd data l)
  have fresh: "ws_roomId s ws = None"
    using assms(4) joined(1,2) by simp
  then have out: "\<And>r l. rooms s r = Some l \<Longrightarrow> ws \<notin> set l"
    using assms(2) by (auto simp: back_refs_def)
  have key: "msg_roomId data = Some (property_key (msg_roomId data))"
    using assms(1) joined(3) by (rule room_key)
  have "distinct (l @ [ws])"
    using out[OF joined(3)] assms(3) joined(3) by (auto simp: rooms_distinct_def)
  then show ?thesis
    unfolding joined(4) using assms(2,3) out joined(3) key
    by (auto simp: back_refs_def rooms_distinct_def split: if_splits)
next
  case (left ws roomId l)
  show ?thesis
    unfolding left(4) using assms(2,3) left(3)
    by (auto simp: back_refs_def rooms_distinct_def split: if_splits)
qed

lemma back_refs_in_one_room: "back_refs s \<Longrightarrow> in_one_room s"
  unfolding back_refs_def in_one_room_def by (metis option.inject)

subsection \<open>What every sequence of events keeps\<close>

lemma run_ids_wf: "room_ids_wf s \<Longrightarrow> room_ids_wf (run is_open s evs)"
  by (induction evs arbitrary: s) (simp_all add: step_ids_wf)

lemma run_nonempty: "rooms_nonempty s \<Longrightarrow> rooms_nonempty (run is_open s evs)"
  by (induction evs arbitrary: s) (simp_all add: step_nonempty)

lemma run_back_refs:
  "room_ids_wf s \<Longrightarrow> back_refs s \<Longrightarrow> rooms_distinct s \<Longrightarrow> one_room_each is_open s evs \<Longrightarrow>
   back_refs (run is_open s evs) \<and> rooms_distinct (run is_open s evs)"
proof (induction evs arbitrary: s)
  case Nil
  then show ?case by simp
next
  case (Cons e evs)
  let ?s = "state_after (step is_open s e)"
  have g: "first_room_only s e" using Cons.prems(4) by simp
  have wf: "room_ids_wf ?s" using Cons.prems(1) by (rule step_ids_wf)
  have inv: "back_refs ?s \<and> rooms_distinct ?s"
    using Cons.prems(1,2,3) g by (rule step_back_refs)
  show ?case
  proof (cases "completion (step is_open s e) = Returns")
    case True
    then have "one_room_each is_open ?s evs" using Cons.prems(4) by simp
    with Cons.IH[OF wf] inv True show ?thesis by simp
  next
    case False
    with inv show ?thesis by simp
  qed
qed

lemma no_rooms_invariants:
  "room_ids_wf no_rooms" "rooms_nonempty no_rooms" "back_refs no_rooms" "rooms_distinct no_rooms"
  by (simp_all add: no_rooms_def room_ids_wf_def rooms_nonempty_def back_refs_def rooms_distinct_def)

subsection \<open>Example runs\<close>

lemma create_a: "createRoomId draws_a = Some room_a"
  by (simp add: createRoomId_def draws_a_def room_a_def)

lemma create_b: "createRoomId draws_b = Some room_b"
  by (simp add: createRoomId_def draws_b_def room_b_def)

lemma room_a_not_b: "room_a \<noteq> room_b"
  by (simp add: room_a_def room_b_def)

lemma on_message_create_a:
  "on_message is_open draws_a s ws msg_create =
     \<lparr>state_after = s\<lparr>rooms := (rooms s)(room_a \<mapsto> [ws]),
                        ws_roomId := (ws_roomId s)(ws := Some room_a)\<rparr>,
      sent = [(ws, RoomCreated room_a)], completion = Returns\<rparr>"
  by (simp add: on_message_cases create_room_def create_a msg_create_def)

lemma on_message_create_b:
  "on_message is_open draws_b s ws msg_create =
     \<lparr>state_after = s\<lparr>rooms := (rooms s)(room_b \<mapsto> [ws]),
                        ws_roomId := (ws_roomId s)(ws := Some room_b)\<rparr>,
      sent = [(ws, RoomCreated room_b)], completion = Returns\<rparr>"
  by (simp add: on_message_cases create_room_def create_b msg_create_def)

lemma on_message_join:
  assumes "rooms s roomId = Some l"
  shows "on_message is_open rnd s ws (msg_join roomId name) =
     \<lparr>state_after = s\<lparr>rooms := (rooms s)(roomId \<mapsto> l @ [ws]),
                        ws_roomId := (ws_roomId s)(ws := Some roomId)\<rparr>,
      sent = map (\<lambda>client. (client, UserJoined (Some name))) (filter is_open (l @ [ws])) @
             (if length (l @ [ws]) \<ge> 2 then [((l @ [ws]) ! 0, StartWebrtc)] else []),
      completion = Returns\<rparr>"
  using assms
  by (simp add: on_message_cases join_room_def msg_join_def rooms_get_def property_key_def Let_def)

lemma run_create_join:
  "run is_open no_rooms [Message 5 draws_a msg_create, Message 6 [] (msg_join room_a ''bob'')] =
     \<lparr>rooms = [room_a \<mapsto> [5, 6]],
      ws_roomId = (\<lambda>ws. None)(5 := Some room_a, 6 := Some room_a)\<rparr>"
  by (simp add: on_message_create_a on_message_join[of _ room_a "[5]"] no_rooms_def)

lemma run_create_twice:
  "run is_open no_rooms [Message 5 draws_a msg_create, Message 5 draws_b msg_create] =
     \<lparr>rooms = [room_a \<mapsto> [5], room_b \<mapsto> [5]], ws_roomId = (\<lambda>ws. None)(5 := Some room_b)\<rparr>"
  by (simp add: on_message_create_a on_message_create_b no_rooms_def)

lemma run_create_rejoin:
  "run is_open no_rooms [Message 5 draws_a msg_create, Message 5 [] (msg_join room_a ''al'')] =
     \<lparr>rooms = [room_a \<mapsto> [5, 5]], ws_roomId = (\<lambda>ws. None)(5 := Some room_a)\<rparr>"
  by (simp add: on_message_create_a on_message_join[of _ room_a "[5]"] no_rooms_def)

subsection \<open>The negotiation trigger\<close>

lemma starts_user_joined: "starts (map (\<lambda>client. (client, UserJoined u)) xs) = []"
  by (induction xs) (simp_all add: starts_def)

lemma starts_append: "starts (xs @ ys) = starts xs @ starts ys"
  by (simp add: starts_def)

text \<open>
  Claim C1, amended. A join-room for a room of the registry appends the connection to the
  room's list, and start-webrtc is sent if and only if the room then has at least two
  connections: once, to the first connection of the list and to no other. Each later join
  sends it again. A join-room that finds no room sends no start-webrtc and changes nothing.
\<close>

theorem start_webrtc_on_join:
  assumes "msg_type data = ''join-room''"
  shows "(\<forall>l. rooms s (property_key (msg_roomId data)) = Some l \<longrightarrow>
            rooms (state_after (on_message is_open rnd s ws data)) (property_key (msg_roomId data)) =
              Some (l @ [ws]) \<and>
            starts (sent (on_message is_open rnd s ws data)) =
              (if 2 \<le> length (l @ [ws]) then [(hd (l @ [ws]), StartWebrtc)] else [])) \<and>
         (rooms s (property_key (msg_roomId data)) = None \<longrightarrow>
            state_after (on_message is_open rnd s ws data) = s \<and>
            starts (sent (on_message is_open rnd s ws data)) = [])"
proof (intro conjI allI impI)
  fix l assume l: "rooms s (property_key (msg_roomId data)) = Some l"
  then have g: "rooms_get s (msg_roomId data) = Room l" by (simp add: rooms_get_Room)
  show "rooms (state_after (on_message is_open rnd s ws data)) (property_key (msg_roomId data)) =
      Some (l @ [ws])"
    using assms g by (simp add: on_message_cases join_room_def Let_def)
  have "(l @ [ws]) ! 0 = hd (l @ [ws])" by (simp add: hd_conv_nth)
  then show "starts (sent (on_message is_open rnd s ws data)) =
      (if 2 \<le> length (l @ [ws]) then [(hd (l @ [ws]), StartWebrtc)] else [])"
    using assms g
    by (simp add: on_message_cases join_room_def Let_def starts_append starts_user_joined)
      (simp add: starts_def)
next
  assume n: "rooms s (property_key (msg_roomId data)) = None"
  then show "state_after (on_message is_open rnd s ws data) = s"
    using assms by (simp add: on_message_cases join_room_def rooms_get_def throws_def)
  from n show "starts (sent (on_message is_open rnd s ws data)) = []"
    using assms by (simp add: on_message_cases join_room_def rooms_get_def throws_def starts_def)
qed

text \<open>The second connection joins: the creator, and only the creator, is told to start.\<close>

theorem start_webrtc_on_join_witness:
  "rooms (state_after (on_message everyone_open []
       \<lparr>rooms = [room_a \<mapsto> [5]], ws_roomId = (\<lambda>ws. None)(5 := Some room_a)\<rparr> 6
       (msg_join room_a ''bob''))) room_a = Some [5, 6] \<and>
   starts (sent (on_message everyone_open []
       \<lparr>rooms = [room_a \<mapsto> [5]], ws_roomId = (\<lambda>ws. None)(5 := Some room_a)\<rparr> 6
       (msg_join room_a ''bob''))) = [(5, StartWebrtc)]"
  using start_webrtc_on_join[of "msg_join room_a ''bob''"
      "\<lparr>rooms = [room_a \<mapsto> [5]], ws_roomId = (\<lambda>ws. None)(5 := Some room_a)\<rparr>"
      everyone_open "[]" 6]
  by (simp add: msg_join_def property_key_def)

text \<open>
  The claim as first stated has start-webrtc sent only when the room has exactly two
  connections. Here a third connection joins the room that 5 created and 6 joined: the
  room has three connections, and start-webrtc is sent to 5 again.
\<close>

theorem third_join_counterexample:
  "rooms (state_after (on_message everyone_open []
       (run everyone_open no_rooms
          [Message 5 draws_a msg_create, Message 6 [] (msg_join room_a ''bob'')])
       7 (msg_join room_a ''carol''))) room_a = Some [5, 6, 7] \<and>
   starts (sent (on_message everyone_open []
       (run everyone_open no_rooms
          [Message 5 draws_a msg_create, Message 6 [] (msg_join room_a ''bob'')])
       7 (msg_join room_a ''carol''))) = [(5, StartWebrtc)]"
proof -
  let ?s = "\<lparr>rooms = [room_a \<mapsto> [5, 6]],
             ws_roomId = (\<lambda>ws. None)(5 := Some room_a, 6 := Some room_a)\<rparr>"
  have "rooms ?s room_a = Some [5, 6]" by simp
  from on_message_join[OF this, of everyone_open "[]" 7 "''carol''"]
  have "rooms (state_after (on_message everyone_open [] ?s 7 (msg_join room_a ''carol''))) room_a =
          Some [5, 6, 7] \<and>
        starts (sent (on_message everyone_open [] ?s 7 (msg_join room_a ''carol''))) =
          [(5, StartWebrtc)]"
    by (simp add: starts_append starts_user_joined) (simp add: starts_def)
  then show ?thesis unfolding run_create_join .
qed

subsection \<open>The registry after any sequence of events\<close>

text \<open>
  Claim C2, amended. After any sequence of create-room, join-room, negotiation and close
  events, from the empty registry, no room of the registry has an empty list. If moreover
  no connection asks to create or to join a room after it has created or joined one, then
  no room lists a connection twice and no connection is in two rooms.
\<close>

theorem registry_invariants:
  "rooms_nonempty (run is_open no_rooms evs) \<and>
   (one_room_each is_open no_rooms evs \<longrightarrow>
      rooms_distinct (run is_open no_rooms evs) \<and> in_one_room (run is_open no_rooms evs))"
proof (intro conjI impI)
  show "rooms_nonempty (run is_open no_rooms evs)"
    using no_rooms_invariants(2) by (rule run_nonempty)
next
  assume g: "one_room_each is_open no_rooms evs"
  have inv: "back_refs (run is_open no_rooms evs) \<and> rooms_distinct (run is_open no_rooms evs)"
    using no_rooms_invariants(1,3,4) g by (rule run_back_refs)
  then show "rooms_distinct (run is_open no_rooms evs)" by simp
  from inv show "in_one_room (run is_open no_rooms evs)"
    by (simp add: back_refs_in_one_room)
qed

text \<open>5 creates a room, 6 joins it, 5 leaves: the room is left with 6.\<close>

theorem registry_invariants_witness:
  "one_room_each everyone_open no_rooms
     [Message 5 draws_a msg_create, Message 6 [] (msg_join room_a ''bob''), Close 5] \<and>
   rooms_nonempty (run everyone_open no_rooms
     [Message 5 draws_a msg_create, Message 6 [] (msg_join room_a ''bob''), Close 5]) \<and>
   rooms_distinct (run everyone_open no_rooms
     [Message 5 draws_a msg_create, Message 6 [] (msg_join room_a ''bob''), Close 5]) \<and>
   in_one_room (run everyone_open no_rooms
     [Message 5 draws_a msg_create, Message 6 [] (msg_join room_a ''bob''), Close 5])"
proof -
  let ?evs = "[Message 5 draws_a msg_create, Message 6 [] (msg_join room_a ''bob''), Close 5]"
  have s1: "on_message everyone_open draws_a no_rooms 5 msg_create =
      \<lparr>state_after = \<lparr>rooms = [room_a \<mapsto> [5]], ws_roomId = (\<lambda>ws. None)(5 := Some room_a)\<rparr>,
       sent = [(5, RoomCreated room_a)], completion = Returns\<rparr>"
    by (simp add: on_message_create_a no_rooms_def)
  have "one_room_each everyone_open no_rooms ?evs"
    by (simp add: s1 on_message_join[of _ room_a "[5]"])
      (simp add: no_rooms_def msg_create_def msg_join_def)
  then show ?thesis using registry_invariants[of everyone_open ?evs] by blast
qed

text \<open>
  The claim as first stated holds for every sequence. A connection that creates a second
  room stays in the first, and one that joins the room it created is listed twice.
\<close>

theorem second_room_counterexample:
  "\<not> in_one_room (run everyone_open no_rooms
       [Message 5 draws_a msg_create, Message 5 draws_b msg_create]) \<and>
   \<not> rooms_distinct (run everyone_open no_rooms
       [Message 5 draws_a msg_create, Message 5 [] (msg_join room_a ''al'')])"
proof
  let ?s = "\<lparr>rooms = [room_a \<mapsto> [5], room_b \<mapsto> [5]], ws_roomId = (\<lambda>ws. None)(5 := Some room_b)\<rparr>"
  have "rooms ?s room_a = Some [5]" "rooms ?s room_b = Some [5]"
    using room_a_not_b by simp_all
  then have "\<not> in_one_room ?s"
    unfolding in_one_room_def using room_a_not_b by (metis list.set_intros(1))
  then show "\<not> in_one_room (run everyone_open no_rooms
       [Message 5 draws_a msg_create, Message 5 draws_b msg_create])"
    unfolding run_create_twice .
next
  let ?s = "\<lparr>rooms = [room_a \<mapsto> [5, 5]], ws_roomId = (\<lambda>ws. None)(5 := Some room_a)\<rparr>"
  have "rooms ?s room_a = Some [5, 5]" by simp
  moreover have "\<not> distinct [5, 5 :: conn]" by simp
  ultimately have "\<not> rooms_distinct ?s"
    unfolding rooms_distinct_def by blast
  then show "\<not> rooms_distinct (run everyone_open no_rooms
       [Message 5 draws_a msg_create, Message 5 [] (msg_join room_a ''al'')])"
    unfolding run_create_rejoin .
qed

subsection \<open>Messages that the relay does not understand\<close>

lemma undefined_not_inherited: "''undefined'' \<notin> set object_prototype_keys"
  by (simp add: object_prototype_keys_def)

lemma rooms_get_missing:
  assumes "room_ids_wf s"
  shows "rooms_get s None = Absent"
  using undefined_is_no_room_id[OF assms] undefined_not_inherited
  by (simp add: rooms_get_def property_key_def)

text \<open>
  Claim C7, amended. In a registry whose room identifiers have 25 characters (every
  registry that the relay reaches), a message of unrecognized type and a negotiation
  message without roomId send nothing and leave the registry unchanged. A join-room
  without roomId leaves the registry unchanged too, but is answered: the sender, and only
  the sender, gets the error message \<open>Room not found\<close>.
\<close>

theorem malformed_messages:
  assumes "room_ids_wf s"
  shows "(msg_type data \<notin> {''create-room'', ''join-room'', ''webrtc-offer'', ''webrtc-answer'',
                            ''webrtc-ice''} \<longrightarrow>
            on_message is_open rnd s ws data = returns s) \<and>
         (msg_type data \<in> {''webrtc-offer'', ''webrtc-answer'', ''webrtc-ice''} \<and>
          msg_roomId data = None \<longrightarrow>
            on_message is_open rnd s ws data = returns s) \<and>
         (msg_type data = ''join-room'' \<and> msg_roomId data = None \<longrightarrow>
            on_message is_open rnd s ws data =
              \<lparr>state_after = s, sent = [(ws, ErrorMessage ''Room not found'')],
               completion = Returns\<rparr>)"
  using rooms_get_missing[OF assms]
  by (auto simp: on_message_cases forward_def join_room_def)

lemma run_reaches_wf: "room_ids_wf (run is_open no_rooms evs)"
  using no_rooms_invariants(1) by (rule run_ids_wf)

theorem malformed_messages_witness:
  "on_message everyone_open []
     (run everyone_open no_rooms [Message 5 draws_a msg_create]) 6 (msg_ice None) =
   returns (run everyone_open no_rooms [Message 5 draws_a msg_create])"
proof -
  have "room_ids_wf (run everyone_open no_rooms [Message 5 draws_a msg_create])"
    by (rule run_reaches_wf)
  from malformed_messages[OF this, of "msg_ice None" everyone_open "[]" 6]
  show ?thesis by (simp add: msg_ice_def)
qed

text \<open>
  The claim as first stated has every malformed message dropped without an error notice.
  A join-room without roomId is answered with one.
\<close>

theorem join_without_room_id_counterexample:
  "sent (on_message everyone_open [] no_rooms 5
     \<lparr>msg_type = ''join-room'', msg_roomId = None, msg_username = Some ''bob'', msg_rest = []\<rparr>) =
   [(5, ErrorMessage ''Room not found'')]"
  by (simp add: on_message_cases join_room_def rooms_get_def property_key_def no_rooms_def
      object_prototype_keys_def)

subsection \<open>A join-room for a room that is not there\<close>

lemma join_room_unknown:
  assumes "msg_type data = ''join-room''" "rooms s (property_key (msg_roomId data)) = None"
  shows "on_message is_open rnd s ws data =
     (if property_key (msg_roomId data) \<in> set object_prototype_keys then throws s
      else \<lparr>state_after = s, sent = [(ws, ErrorMessage ''Room not found'')],
            completion = Returns\<rparr>)"
  using assms by (simp add: on_message_cases join_room_def rooms_get_def)

text \<open>
  Claim C8. A join-room whose roomId is not in the registry is to be answered with an
  error message to the sender, the registry unchanged. The code does so unless the roomId
  is the name of a property that \<^verbatim>\<open>rooms\<close> inherits from \<^verbatim>\<open>Object.prototype\<close>: for
  \<^verbatim>\<open>"constructor"\<close> the lookup \<^verbatim>\<open>rooms[roomId]\<close> is truthy, \<^verbatim>\<open>push\<close> is not a function
  of it, and the listener throws before it sends anything.
\<close>

theorem join_constructor_throws:
  "on_message is_open rnd no_rooms ws (msg_join ''constructor'' name) =
     \<lparr>state_after = no_rooms, sent = [], completion = Throws_TypeError\<rparr>"
  by (simp add: on_message_cases join_room_def rooms_get_def property_key_def no_rooms_def
      object_prototype_keys_def msg_join_def throws_def)

subsection \<open>Negotiation messages\<close>

text \<open>
  Claim C10. A webrtc-offer, webrtc-answer or webrtc-ice message leaves the registry as it
  is, rooms and the connections' roomId alike, whether its roomId names a room or not.
\<close>

theorem negotiation_leaves_registry:
  assumes "msg_type data \<in> {''webrtc-offer'', ''webrtc-answer'', ''webrtc-ice''}"
  shows "state_after (on_message is_open rnd s ws data) = s"
  using assms
  by (auto simp: on_message_cases forward_def returns_def throws_def split: property.splits)

theorem negotiation_leaves_registry_witness:
  "state_after (on_message everyone_open []
     (run everyone_open no_rooms [Message 5 draws_a msg_create, Message 6 [] (msg_join room_a ''bob'')])
     5 (msg_ice (Some room_a))) =
   run everyone_open no_rooms [Message 5 draws_a msg_create, Message 6 [] (msg_join room_a ''bob'')]"
  using negotiation_leaves_registry[of "msg_ice (Some room_a)"]
  by (simp add: msg_ice_def)

end
